theory Spec2Isabelle
  imports Main "HOL-Library.Multiset"
begin

section \<open>Python strings\<close>

text \<open>
  The scanner of \<^verbatim>\<open>modules/jcl_utilscan.py\<close> works on text. A Python
  string is modelled as a \<open>string\<close> of ASCII characters: JCL members are ASCII
  text, and the character classes below are the ASCII parts of Python's
  \<^verbatim>\<open>str.isspace\<close>, of the regular expression class \<^verbatim>\<open>\w\<close> and of
  \<^verbatim>\<open>str.upper\<close>.
\<close>

definition is_space :: "char \<Rightarrow> bool" where
  "is_space c = (c \<in> set [CHR 0x09, CHR 0x0A, CHR 0x0B, CHR 0x0C, CHR 0x0D,
                            CHR 0x1C, CHR 0x1D, CHR 0x1E, CHR 0x1F, CHR '' ''])"

definition lower_letters :: string where
  "lower_letters = ''abcdefghijklmnopqrstuvwxyz''"

definition upper_letters :: string where
  "upper_letters = ''ABCDEFGHIJKLMNOPQRSTUVWXYZ''"

definition is_word :: "char \<Rightarrow> bool" where
  "is_word c = (c \<in> set (lower_letters @ upper_letters @ ''0123456789_''))"

definition to_upper :: "char \<Rightarrow> char" where
  "to_upper c = (case map_of (zip lower_letters upper_letters) c of Some u \<Rightarrow> u | None \<Rightarrow> c)"

text \<open>\<^verbatim>\<open>s.upper()\<close>, \<^verbatim>\<open>s.strip()\<close>, \<^verbatim>\<open>s.startswith(p)\<close>,
  \<^verbatim>\<open>s.endswith(p)\<close> and \<^verbatim>\<open>"\n".join(xs)\<close>.\<close>

definition upper :: "string \<Rightarrow> string" where
  "upper s = map to_upper s"

definition strip :: "string \<Rightarrow> string" where
  "strip s = rev (dropWhile is_space (rev (dropWhile is_space s)))"

definition startswith :: "string \<Rightarrow> string \<Rightarrow> bool" where
  "startswith p s = (take (length p) s = p)"

definition endswith :: "string \<Rightarrow> string \<Rightarrow> bool" where
  "endswith p s = (length p \<le> length s \<and> drop (length s - length p) s = p)"

fun join_nl :: "string list \<Rightarrow> string" where
  "join_nl [] = []"
| "join_nl [x] = x"
| "join_nl (x # y # ys) = x @ CHR 0x0A # join_nl (y # ys)"

text \<open>\<^verbatim>\<open>t.split("\n")\<close>, the lines of a joined text.\<close>

fun split_nl :: "string \<Rightarrow> string list" where
  "split_nl [] = [[]]"
| "split_nl (c # cs) =
     (if c = CHR 0x0A then [] # split_nl cs
      else (case split_nl cs of [] \<Rightarrow> [[c]] | l # ls \<Rightarrow> (c # l) # ls))"

text \<open>\<^verbatim>\<open>f.readlines()\<close> on the text of a file: every line keeps its final
  newline, the last line may lack one.\<close>

fun readlines :: "string \<Rightarrow> string list" where
  "readlines [] = []"
| "readlines (c # cs) =
     (if c = CHR 0x0A then [c] # readlines cs
      else (case readlines cs of [] \<Rightarrow> [[c]] | l # ls \<Rightarrow> (c # l) # ls))"

text \<open>\<^verbatim>\<open>os.path.join(a, b)\<close> and \<^verbatim>\<open>os.path.basename(p)\<close> on POSIX paths.\<close>

definition os_path_join :: "string \<Rightarrow> string \<Rightarrow> string" where
  "os_path_join a b =
     (if startswith ''/'' b then b
      else if a = [] \<or> endswith ''/'' a then a @ b
      else a @ ''/'' @ b)"

definition basename :: "string \<Rightarrow> string" where
  "basename p = rev (takeWhile (\<lambda>c. c \<noteq> CHR ''/'') (rev p))"

section \<open>Regular expressions\<close>

text \<open>
  The patterns of the module use single characters and character classes, the greedy
  quantifiers \<^verbatim>\<open>*\<close> and \<^verbatim>\<open>+\<close> on them, concatenation, one alternation, one
  optional group, capture groups and the word boundary \<^verbatim>\<open>\b\<close>. The matcher
  returns every way to match from a position, in the order in which Python's backtracking
  matcher tries them (a greedy quantifier tries the longest run first, an alternation its
  left branch first): the head of the list is the match that \<^verbatim>\<open>re\<close> reports.
\<close>

datatype cclass =
    Lit char
  | LitI char
  | Space
  | NonSpace
  | WordC
  | Dot
  | Neg "char list" bool

text \<open>\<open>LitI\<close> is a literal under \<^verbatim>\<open>re.IGNORECASE\<close>; \<open>Neg cs sp\<close> is the
  negated class \<^verbatim>\<open>[^cs]\<close>, with \<^verbatim>\<open>\s\<close> among the excluded characters
  when \<open>sp\<close> holds.\<close>

fun cmatch :: "cclass \<Rightarrow> char \<Rightarrow> bool" where
  "cmatch (Lit a) c = (c = a)"
| "cmatch (LitI a) c = (to_upper c = to_upper a)"
| "cmatch Space c = is_space c"
| "cmatch NonSpace c = (\<not> is_space c)"
| "cmatch WordC c = is_word c"
| "cmatch Dot c = (c \<noteq> CHR 0x0A)"
| "cmatch (Neg cs sp) c = (c \<notin> set cs \<and> \<not> (sp \<and> is_space c))"

datatype rx =
    Atom cclass
  | Star cclass
  | Plus cclass
  | Cat rx rx
  | Alt rx rx
  | Opt rx
  | Grp nat rx
  | Bnd
  | Eps

text \<open>A match state is the position reached and the groups captured so far, each as
  (number, start, end).\<close>

type_synonym mstate = "nat \<times> (nat \<times> nat \<times> nat) list"

definition run :: "cclass \<Rightarrow> string \<Rightarrow> nat \<Rightarrow> nat" where
  "run c s p = length (takeWhile (cmatch c) (drop p s))"

definition word_at :: "string \<Rightarrow> nat \<Rightarrow> bool" where
  "word_at s p = (p < length s \<and> is_word (s ! p))"

fun ms :: "rx \<Rightarrow> string \<Rightarrow> mstate \<Rightarrow> mstate list" where
  "ms (Atom c) s (p, g) = (if p < length s \<and> cmatch c (s ! p) then [(Suc p, g)] else [])"
| "ms (Star c) s (p, g) = map (\<lambda>k. (p + k, g)) (rev [0 ..< Suc (run c s p)])"
| "ms (Plus c) s (p, g) = map (\<lambda>k. (p + k, g)) (rev [1 ..< Suc (run c s p)])"
| "ms (Cat a b) s st = concat (map (ms b s) (ms a s st))"
| "ms (Alt a b) s st = ms a s st @ ms b s st"
| "ms (Opt a) s st = ms a s st @ [st]"
| "ms (Grp k a) s (p, g) = map (\<lambda>(q, g'). (q, (k, p, q) # g')) (ms a s (p, g))"
| "ms Bnd s (p, g) =
     (if (0 < p \<and> word_at s (p - 1)) \<noteq> word_at s p then [(p, g)] else [])"
| "ms Eps s st = [st]"

text \<open>The first way to match from a state, which is the one Python takes.\<close>

definition first_match :: "rx \<Rightarrow> string \<Rightarrow> mstate \<Rightarrow> mstate option" where
  "first_match r s st = (case ms r s st of [] \<Rightarrow> None | m # _ \<Rightarrow> Some m)"

text \<open>\<^verbatim>\<open>re.match\<close> anchors at the start of the string; \<^verbatim>\<open>re.search\<close> tries
  every start position from left to right.\<close>

definition re_match :: "rx \<Rightarrow> string \<Rightarrow> mstate option" where
  "re_match r s = (case ms r s (0, []) of [] \<Rightarrow> None | m # _ \<Rightarrow> Some m)"

fun search_from :: "rx \<Rightarrow> string \<Rightarrow> nat list \<Rightarrow> mstate option" where
  "search_from r s [] = None"
| "search_from r s (i # is) =
     (case ms r s (i, []) of [] \<Rightarrow> search_from r s is | m # _ \<Rightarrow> Some m)"

definition re_search :: "rx \<Rightarrow> string \<Rightarrow> mstate option" where
  "re_search r s = search_from r s [0 ..< Suc (length s)]"

definition group :: "string \<Rightarrow> mstate \<Rightarrow> nat \<Rightarrow> string" where
  "group s m k =
     (case map_of (snd m) k of Some (b, e) \<Rightarrow> take (e - b) (drop b s) | None \<Rightarrow> [])"

fun seq :: "rx list \<Rightarrow> rx" where
  "seq [] = Eps"
| "seq [r] = r"
| "seq (r # rs) = Cat r (seq rs)"

definition lit :: "string \<Rightarrow> rx" where
  "lit s = seq (map (\<lambda>c. Atom (Lit c)) s)"

definition liti :: "string \<Rightarrow> rx" where
  "liti s = seq (map (\<lambda>c. Atom (LitI c)) s)"

subsection \<open>The patterns of the module\<close>

text \<open>\<^verbatim>\<open>//\s+SET\s+(\w+)=(.+)\<close>, IGNORECASE (line 65).\<close>

definition rx_set :: rx where
  "rx_set = seq [liti ''//'', Plus Space, liti ''SET'', Plus Space, Grp 1 (Plus WordC),
                 liti ''='', Grp 2 (Plus Dot)]"

text \<open>\<^verbatim>\<open>//\S+\s+EXEC\s+(\w+)\<close>, IGNORECASE (line 72).\<close>

definition rx_exec_proc :: rx where
  "rx_exec_proc = seq [liti ''//'', Plus NonSpace, Plus Space, liti ''EXEC'', Plus Space,
                       Grp 1 (Plus WordC)]"

text \<open>
  \<^verbatim>\<open>\b{param_name}\s*=\s*([^,\s]+)\<close>, IGNORECASE (lines 76, 104, 123), and
  \<^verbatim>\<open>//\S+\s+PROC\b.*\b{param_name}\s*=\s*([^,\s]+)\<close>, IGNORECASE (line 87). The
  parameter name is pasted into the pattern unescaped. For a name of word characters,
  which is what the step extractor passes (the token matched by \<^verbatim>\<open>&\w+\<close>), the
  pasted text is a literal. Any other name would be read as pattern syntax, which the
  model does not cover: there it has no pattern.
\<close>

definition param_rx :: "string \<Rightarrow> rx option" where
  "param_rx p =
     (if list_all is_word p
      then Some (seq [Bnd, liti p, Star Space, liti ''='', Star Space,
                      Grp 1 (Plus (Neg '','' True))])
      else None)"

definition proc_def_rx :: "string \<Rightarrow> rx option" where
  "proc_def_rx p =
     (if list_all is_word p
      then Some (seq [liti ''//'', Plus NonSpace, Plus Space, liti ''PROC'', Bnd, Star Dot,
                      Bnd, liti p, Star Space, liti ''='', Star Space,
                      Grp 1 (Plus (Neg '','' True))])
      else None)"

text \<open>\<^verbatim>\<open>//\s*INCLUDE\s+MEMBER\s*=\s*(\w+)\<close>, IGNORECASE (line 93).\<close>

definition rx_include :: rx where
  "rx_include = seq [liti ''//'', Star Space, liti ''INCLUDE'', Plus Space, liti ''MEMBER'',
                     Star Space, liti ''='', Star Space, Grp 1 (Plus WordC)]"

text \<open>\<^verbatim>\<open>//\*\s*EXEC\<close>, IGNORECASE (line 171).\<close>

definition rx_comment_exec :: rx where
  "rx_comment_exec = seq [liti ''//*'', Star Space, liti ''EXEC'']"

text \<open>\<^verbatim>\<open>//(\S+)\s+EXEC\s+(?:PGM\s*=\s*)?(\b\w+\b|&\w+)\<close>, IGNORECASE (line 175).\<close>

definition rx_exec :: rx where
  "rx_exec = seq [liti ''//'', Grp 1 (Plus NonSpace), Plus Space, liti ''EXEC'', Plus Space,
                  Opt (seq [liti ''PGM'', Star Space, liti ''='', Star Space]),
                  Grp 2 (Alt (seq [Bnd, Plus WordC, Bnd]) (seq [liti ''&'', Plus WordC]))]"

text \<open>\<^verbatim>\<open>//\S+\s+EXEC\s+PGM=\<close>, IGNORECASE (lines 201, 211).\<close>

definition rx_exec_pgm :: rx where
  "rx_exec_pgm = seq [liti ''//'', Plus NonSpace, Plus Space, liti ''EXEC'', Plus Space,
                      liti ''PGM='']"

text \<open>\<^verbatim>\<open>//\s*SYSIN\s+DD\s+\*\<close> (line 225), \<^verbatim>\<open>//\s*SYSIN\s+DD\s+DSN=\<close>
  (line 230) and \<^verbatim>\<open>DSN=[^,]+\(([^)]+)\)\<close> (line 232), all case-sensitive.\<close>

definition rx_sysin_inline :: rx where
  "rx_sysin_inline = seq [lit ''//'', Star Space, lit ''SYSIN'', Plus Space, lit ''DD'',
                          Plus Space, lit ''*'']"

definition rx_sysin_dsn :: rx where
  "rx_sysin_dsn = seq [lit ''//'', Star Space, lit ''SYSIN'', Plus Space, lit ''DD'',
                       Plus Space, lit ''DSN='']"

definition rx_dsn_member :: rx where
  "rx_dsn_member = seq [lit ''DSN='', Plus (Neg '','' False), lit ''('',
                        Grp 1 (Plus (Neg '')'' False)), lit '')'']"

section \<open>The file system and exceptions\<close>

text \<open>
  A path holds nothing, a file that cannot be read (a directory, a file without
  permission, bytes that do not decode: \<^verbatim>\<open>open\<close> or the read raises, with the
  message given), or a text file. \<open>walk\<close> is what \<^verbatim>\<open>os.walk\<close> yields for a
  directory: its (root, files) pairs in order.
\<close>

datatype fstate = Absent | Unreadable string | File string

record filesystem =
  node :: "string \<Rightarrow> fstate"
  walk :: "string \<Rightarrow> (string \<times> string list) list"

datatype exn = OSError string | Pattern_outside_model

definition exn_str :: "exn \<Rightarrow> string" where
  "exn_str e = (case e of OSError m \<Rightarrow> m | Pattern_outside_model \<Rightarrow> ''pattern outside the model'')"

definition path_exists :: "filesystem \<Rightarrow> string \<Rightarrow> bool" where
  "path_exists fs p = (node fs p \<noteq> Absent)"

definition open_read :: "filesystem \<Rightarrow> string \<Rightarrow> exn + string" where
  "open_read fs p =
     (case node fs p of
        File c \<Rightarrow> Inr c
      | Unreadable m \<Rightarrow> Inl (OSError m)
      | Absent \<Rightarrow>
          Inl (OSError (''[Errno 2] No such file or directory: '' @ [CHR 0x27] @ p @ [CHR 0x27])))"

section \<open>The symbolic parameter resolver\<close>

text \<open>\<open>find_proc_content\<close> (lines 133 to 149): the first library that holds
  \<^verbatim>\<open><proc_name>.proc\<close> is opened and read, with no handler around the read.\<close>

fun find_proc_content :: "filesystem \<Rightarrow> string \<Rightarrow> string list \<Rightarrow> exn + string list option" where
  "find_proc_content fs proc_name [] = Inr None"
| "find_proc_content fs proc_name (proc_lib # libs) =
     (let proc_path = os_path_join proc_lib (proc_name @ ''.proc'') in
      if path_exists fs proc_path
      then (case open_read fs proc_path of
              Inl e \<Rightarrow> Inl e
            | Inr c \<Rightarrow> Inr (Some (readlines c)))
      else find_proc_content fs proc_name libs)"

text \<open>Source 1, the loop of lines 64 to 67. \<open>set_statement p line\<close> is the value that
  one line gives to \<open>p\<close> by a SET statement.\<close>

definition set_statement :: "string \<Rightarrow> string \<Rightarrow> string option" where
  "set_statement p line =
     (case re_match rx_set line of
        None \<Rightarrow> None
      | Some m \<Rightarrow> if upper (group line m 1) = upper p then Some (strip (group line m 2)) else None)"

fun set_loop :: "string \<Rightarrow> string list \<Rightarrow> string option" where
  "set_loop p [] = None"
| "set_loop p (line # rest) =
     (case set_statement p line of Some v \<Rightarrow> Some v | None \<Rightarrow> set_loop p rest)"

text \<open>\<^verbatim>\<open>re.search(rf"\b{param_name}\s*=\s*([^,\s]+)", line, re.IGNORECASE)\<close> and
  its group 1.\<close>

definition search_param :: "string \<Rightarrow> string \<Rightarrow> exn + string option" where
  "search_param p line =
     (case param_rx p of
        None \<Rightarrow> Inl Pattern_outside_model
      | Some r \<Rightarrow> Inr (map_option (\<lambda>m. group line m 1) (re_search r line)))"

definition search_proc_def :: "string \<Rightarrow> string \<Rightarrow> exn + string option" where
  "search_proc_def p line =
     (case proc_def_rx p of
        None \<Rightarrow> Inl Pattern_outside_model
      | Some r \<Rightarrow> Inr (map_option (\<lambda>m. group line m 1) (re_search r line)))"

text \<open>The loop of lines 85 to 89 over the lines of a PROC definition.\<close>

fun proc_default :: "string \<Rightarrow> string list \<Rightarrow> exn + string option" where
  "proc_default p [] = Inr None"
| "proc_default p (proc_line # rest) =
     (case search_proc_def p proc_line of
        Inl e \<Rightarrow> Inl e
      | Inr (Some v) \<Rightarrow> Inr (Some v)
      | Inr None \<Rightarrow> proc_default p rest)"

text \<open>Sources 2 and 3, the loop of lines 70 to 89. \<open>exec_line\<close> is one iteration:
  a line that is an EXEC statement is asked for an override and then, in the same
  iteration, for the default of the PROC it names; \<open>Inr None\<close> is an iteration that
  returns nothing, so that the loop goes on.\<close>

definition exec_line :: "filesystem \<Rightarrow> string \<Rightarrow> string list \<Rightarrow> string \<Rightarrow> exn + string option" where
  "exec_line fs p procs line =
     (case re_match rx_exec_proc line of
        None \<Rightarrow> Inr None
      | Some pm \<Rightarrow>
          (case search_param p line of
             Inl e \<Rightarrow> Inl e
           | Inr (Some v) \<Rightarrow> Inr (Some v)
           | Inr None \<Rightarrow>
               (case find_proc_content fs (group line pm 1) procs of
                  Inl e \<Rightarrow> Inl e
                | Inr None \<Rightarrow> Inr None
                | Inr (Some proc_content) \<Rightarrow> proc_default p proc_content)))"

fun exec_loop :: "filesystem \<Rightarrow> string \<Rightarrow> string list \<Rightarrow> string list \<Rightarrow> exn + string option" where
  "exec_loop fs p procs [] = Inr None"
| "exec_loop fs p procs (line # rest) =
     (case exec_line fs p procs line of
        Inl e \<Rightarrow> Inl e
      | Inr (Some v) \<Rightarrow> Inr (Some v)
      | Inr None \<Rightarrow> exec_loop fs p procs rest)"

text \<open>The loop of lines 103 to 106 (and 122 to 125) over the lines of a member.\<close>

fun member_search :: "string \<Rightarrow> string list \<Rightarrow> exn + string option" where
  "member_search p [] = Inr None"
| "member_search p (member_line # rest) =
     (case search_param p member_line of
        Inl e \<Rightarrow> Inl e
      | Inr (Some v) \<Rightarrow> Inr (Some v)
      | Inr None \<Rightarrow> member_search p rest)"

text \<open>Source 4, the loop of lines 92 to 106. The member is opened with no handler.\<close>

fun include_loop :: "filesystem \<Rightarrow> string \<Rightarrow> string \<Rightarrow> string list \<Rightarrow> exn + string option" where
  "include_loop fs p cntllib [] = Inr None"
| "include_loop fs p cntllib (line # rest) =
     (case re_search rx_include line of
        None \<Rightarrow> include_loop fs p cntllib rest
      | Some im \<Rightarrow>
          (if cntllib \<noteq> []
           then (let member_path = os_path_join cntllib (group line im 1 @ ''.incl'') in
                 if path_exists fs member_path
                 then (case open_read fs member_path of
                         Inl e \<Rightarrow> Inl e
                       | Inr c \<Rightarrow>
                           (case member_search p (readlines c) of
                              Inl e \<Rightarrow> Inl e
                            | Inr (Some v) \<Rightarrow> Inr (Some v)
                            | Inr None \<Rightarrow> include_loop fs p cntllib rest))
                 else include_loop fs p cntllib rest)
           else include_loop fs p cntllib rest))"

text \<open>Source 6, the walk of lines 117 to 128: the only reads inside a
  \<^verbatim>\<open>try\<close>; a file that cannot be read is skipped.\<close>

fun walk_files :: "filesystem \<Rightarrow> string \<Rightarrow> string \<Rightarrow> string list \<Rightarrow> exn + string option" where
  "walk_files fs p root [] = Inr None"
| "walk_files fs p root (file # files) =
     (if endswith ''.incl'' file
      then (case open_read fs (os_path_join root file) of
              Inl e \<Rightarrow> walk_files fs p root files
            | Inr c \<Rightarrow>
                (case member_search p (readlines c) of
                   Inl e \<Rightarrow> Inl e
                 | Inr (Some v) \<Rightarrow> Inr (Some v)
                 | Inr None \<Rightarrow> walk_files fs p root files))
      else walk_files fs p root files)"

fun walk_loop :: "filesystem \<Rightarrow> string \<Rightarrow> (string \<times> string list) list \<Rightarrow> exn + string option" where
  "walk_loop fs p [] = Inr None"
| "walk_loop fs p ((root, files) # dirs) =
     (case walk_files fs p root files of
        Inl e \<Rightarrow> Inl e
      | Inr (Some v) \<Rightarrow> Inr (Some v)
      | Inr None \<Rightarrow> walk_loop fs p dirs)"

text \<open>Sources 5 and 6, lines 109 to 128. The direct member is opened with no handler.\<close>

definition cntllib_lookup :: "filesystem \<Rightarrow> string \<Rightarrow> string \<Rightarrow> exn + string option" where
  "cntllib_lookup fs p cntllib =
     (if cntllib \<noteq> []
      then (let member_path = os_path_join cntllib (p @ ''.incl'') in
            if path_exists fs member_path
            then (case open_read fs member_path of
                    Inl e \<Rightarrow> Inl e
                  | Inr c \<Rightarrow> Inr (Some (strip c)))
            else walk_loop fs p (walk fs cntllib))
      else Inr None)"

text \<open>\<open>resolve_symbolic_parameter\<close> (lines 50 to 131). \<open>Inl\<close> is an exception that
  leaves the function, \<open>Inr None\<close> is the return value \<^verbatim>\<open>None\<close>.\<close>

definition resolve_symbolic_parameter ::
  "filesystem \<Rightarrow> string \<Rightarrow> string list \<Rightarrow> string list \<Rightarrow> string \<Rightarrow> exn + string option" where
  "resolve_symbolic_parameter fs param_name jcl_content proc_libraries cntllib_path =
     (case set_loop param_name jcl_content of
        Some v \<Rightarrow> Inr (Some v)
      | None \<Rightarrow>
          (case exec_loop fs param_name proc_libraries jcl_content of
             Inl e \<Rightarrow> Inl e
           | Inr (Some v) \<Rightarrow> Inr (Some v)
           | Inr None \<Rightarrow>
               (case include_loop fs param_name cntllib_path jcl_content of
                  Inl e \<Rightarrow> Inl e
                | Inr (Some v) \<Rightarrow> Inr (Some v)
                | Inr None \<Rightarrow> cntllib_lookup fs param_name cntllib_path)))"

section \<open>Control cards\<close>

text \<open>\<open>extract_control_card\<close> (lines 250 to 266). \<open>read_control_card\<close> is the body
  of its \<^verbatim>\<open>try\<close>; the handler logs and returns a string. The second component
  of the result is what was passed to \<open>log_error\<close>.\<close>

definition read_control_card :: "filesystem \<Rightarrow> string \<Rightarrow> string \<Rightarrow> exn + string" where
  "read_control_card fs cntllib member =
     (let file_path = os_path_join cntllib (member @ ''.incl'') in
      if \<not> path_exists fs file_path
      then Inr (''[Control card '' @ [CHR 0x27] @ member @ [CHR 0x27] @ '' not found in CNTLLIB]'')
      else (case open_read fs file_path of
              Inl e \<Rightarrow> Inl e
            | Inr content \<Rightarrow>
                Inr (if strip content \<noteq> [] then content
                     else ''[Control card file exists but is empty]'')))"

definition extract_control_card ::
  "filesystem \<Rightarrow> string \<Rightarrow> string \<Rightarrow> exn + string \<times> string list" where
  "extract_control_card fs cntllib member =
     (if cntllib = [] \<or> member = []
      then Inr (''[No CNTLLIB path or member specified]'', [])
      else (case read_control_card fs cntllib member of
              Inr s \<Rightarrow> Inr (s, [])
            | Inl e \<Rightarrow>
                Inr (''[Error reading control card: '' @ exn_str e @ '']'',
                     [''Error reading control card '' @ member @ '': '' @ exn_str e])))"

section \<open>The step extractor\<close>

text \<open>A queued task (the tuple of line 332) and an extracted step (the tuple of lines
  242 to 246, with the field names of the specification).\<close>

record task =
  file_path :: string
  utilities :: "string set"
  file_type :: string
  cntllib_path :: string
  proc_libraries :: "string list"

record extracted =
  fileName :: string
  fileType :: string
  stepName :: string
  stepBlockText :: string
  resolvedProgramName :: string
  sysinType :: string
  sysinStatementText :: string
  controlCardMember :: string
  controlCardContent :: string
  precedingCommentsText :: string

text \<open>What one step captured, by line index: the EXEC line, the comment lines above
  it, the lines below it, and the index where the forward scan stopped (the new
  \<open>last_step_end\<close>).\<close>

record capture =
  exec_at :: nat
  comments_at :: "nat list"
  block_at :: "nat list"
  step_end :: nat

text \<open>What a worker does to the shared state while it processes a file: an append to
  \<open>extracted_data\<close> (with the capture it came from) or a call of \<open>log_error\<close>.\<close>

datatype event = Emit capture extracted | Log string

text \<open>The backward scan of lines 197 to 206. \<^verbatim>\<open>j\<close> runs down from \<^verbatim>\<open>i - 1\<close>
  to \<^verbatim>\<open>last_step_end\<close>: the candidates are \<open>rev [last_step_end ..< i]\<close>.\<close>

fun back_scan :: "string list \<Rightarrow> nat list \<Rightarrow> nat list" where
  "back_scan lines [] = []"
| "back_scan lines (j # js) =
     (if strip (lines ! j) = [] \<or> re_match rx_exec_pgm (lines ! j) \<noteq> None then []
      else back_scan lines js @ (if startswith ''//*'' (lines ! j) then [j] else []))"

text \<open>The forward scan of lines 210 to 216 over the candidates \<open>[i + 1 ..< len(lines)]\<close>:
  the indices captured and the value of \<^verbatim>\<open>j\<close> when the loop ends.\<close>

fun fwd_scan :: "string list \<Rightarrow> nat list \<Rightarrow> nat list \<times> nat" where
  "fwd_scan lines [] = ([], length lines)"
| "fwd_scan lines (j # js) =
     (if re_match rx_exec_pgm (lines ! j) \<noteq> None then ([], j)
      else if strip (lines ! j) = [] then ([], j)
      else (let (captured, stop) = fwd_scan lines js
            in (if startswith ''//'' (lines ! j) then j # captured else captured, stop)))"

definition capture_step :: "string list \<Rightarrow> nat \<Rightarrow> nat \<Rightarrow> capture" where
  "capture_step lines i last_step_end =
     (let (captured, stop) = fwd_scan lines [Suc i ..< length lines]
      in \<lparr>exec_at = i,
          comments_at = back_scan lines (rev [last_step_end ..< i]),
          block_at = captured,
          step_end = stop\<rparr>)"

text \<open>The SYSIN loop of lines 219 to 238 over \<open>step_block\<close>: the type, the statement,
  the member, its content, and what was logged.\<close>

fun find_sysin ::
  "filesystem \<Rightarrow> string \<Rightarrow> string list \<Rightarrow> exn + (string \<times> string \<times> string \<times> string) \<times> string list" where
  "find_sysin fs cntllib [] = Inr ((''None'', [], [], []), [])"
| "find_sysin fs cntllib (step_line # rest) =
     (if re_search rx_sysin_inline step_line \<noteq> None
      then Inr ((''Inline SYSIN'', strip step_line, [], []), [])
      else if re_search rx_sysin_dsn step_line \<noteq> None
      then (case re_search rx_dsn_member step_line of
              None \<Rightarrow> Inr ((''Control Card'', strip step_line, [], []), [])
            | Some m \<Rightarrow>
                (case extract_control_card fs cntllib (group step_line m 1) of
                   Inl e \<Rightarrow> Inl e
                 | Inr (content, logged) \<Rightarrow>
                     Inr ((''Control Card'', strip step_line, group step_line m 1, content),
                          logged)))
      else find_sysin fs cntllib rest)"

text \<open>Lines 194 to 246: the step at line \<open>i\<close> whose program is in the utility set.\<close>

definition emit_step ::
  "filesystem \<Rightarrow> task \<Rightarrow> string list \<Rightarrow> nat \<Rightarrow> nat \<Rightarrow> string \<Rightarrow> string \<Rightarrow> event list \<times> (exn + nat)" where
  "emit_step fs t lines i last_step_end step_name program_name =
     (let c = capture_step lines i last_step_end;
          comment_block = map (\<lambda>j. strip (lines ! j)) (comments_at c);
          step_block = strip (lines ! i) # map (\<lambda>j. strip (lines ! j)) (block_at c)
      in (case find_sysin fs (cntllib_path t) step_block of
            Inl e \<Rightarrow> ([], Inl e)
          | Inr ((sysin_type, sysin_statement, member, content), logged) \<Rightarrow>
              (map Log logged @
               [Emit c \<lparr>fileName = basename (file_path t), fileType = file_type t,
                         stepName = step_name, stepBlockText = join_nl step_block,
                         resolvedProgramName = program_name, sysinType = sysin_type,
                         sysinStatementText = sysin_statement, controlCardMember = member,
                         controlCardContent = content,
                         precedingCommentsText = join_nl comment_block\<rparr>],
               Inr (step_end c))))"

text \<open>Lines 181 to 190: a program name that starts with \<^verbatim>\<open>&\<close> is resolved;
  \<open>Inr None\<close> is the step that is skipped because the resolver returned
  \<^verbatim>\<open>None\<close> or an empty string.\<close>

definition resolve_program :: "filesystem \<Rightarrow> task \<Rightarrow> string list \<Rightarrow> string \<Rightarrow> exn + string option" where
  "resolve_program fs t lines program_name =
     (if startswith ''&'' program_name
      then (case resolve_symbolic_parameter fs (drop 1 program_name) lines
                   (proc_libraries t) (cntllib_path t) of
              Inl e \<Rightarrow> Inl e
            | Inr None \<Rightarrow> Inr None
            | Inr (Some resolved_name) \<Rightarrow>
                (if resolved_name \<noteq> [] then Inr (Some (upper resolved_name)) else Inr None))
      else Inr (Some program_name))"

text \<open>One iteration of the loop of line 170: the events, and the new
  \<open>last_step_end\<close> or the exception that leaves the loop.\<close>

definition scan_line ::
  "filesystem \<Rightarrow> task \<Rightarrow> string list \<Rightarrow> nat \<Rightarrow> nat \<Rightarrow> event list \<times> (exn + nat)" where
  "scan_line fs t lines i last_step_end =
     (let line = lines ! i in
      if re_match rx_comment_exec line \<noteq> None then ([], Inr last_step_end)
      else (case re_match rx_exec line of
              None \<Rightarrow> ([], Inr last_step_end)
            | Some m \<Rightarrow>
                (let step_name = group line m 1;
                     program_name = upper (group line m 2)
                 in (case resolve_program fs t lines program_name of
                       Inl e \<Rightarrow> ([], Inl e)
                     | Inr None \<Rightarrow>
                         ([Log (''Unresolved symbolic parameter '' @ program_name
                                @ '' in '' @ basename (file_path t))],
                          Inr last_step_end)
                     | Inr (Some resolved) \<Rightarrow>
                         (if resolved \<in> utilities t
                          then emit_step fs t lines i last_step_end step_name resolved
                          else ([], Inr last_step_end))))))"

fun scan_lines ::
  "filesystem \<Rightarrow> task \<Rightarrow> string list \<Rightarrow> nat list \<Rightarrow> nat \<Rightarrow> event list \<times> exn option" where
  "scan_lines fs t lines [] last_step_end = ([], None)"
| "scan_lines fs t lines (i # rest) last_step_end =
     (case scan_line fs t lines i last_step_end of
        (evs, Inl e) \<Rightarrow> (evs, Some e)
      | (evs, Inr last') \<Rightarrow>
          (let (evs', r) = scan_lines fs t lines rest last' in (evs @ evs', r)))"

text \<open>The body of the worker's loop for one task (lines 154 to 248): what the worker
  does to the shared state, in order. The handler of line 247 logs the exception; what
  was appended before it stays appended.\<close>

definition file_events :: "filesystem \<Rightarrow> task \<Rightarrow> event list" where
  "file_events fs t =
     (case open_read fs (file_path t) of
        Inl e \<Rightarrow> [Log (''Error reading '' @ file_path t @ '': '' @ exn_str e)]
      | Inr content \<Rightarrow>
          (let lines = readlines content in
           if lines = [] then [Log (''Empty file: '' @ file_path t)]
           else (case scan_lines fs t lines [0 ..< length lines] 0 of
                   (evs, None) \<Rightarrow> evs
                 | (evs, Some e) \<Rightarrow>
                     evs @ [Log (''Error reading '' @ file_path t @ '': '' @ exn_str e)])))"

text \<open>The shared state: the list \<open>extracted_data\<close> and the log.\<close>

record shared =
  extracted_data :: "extracted list"
  log :: "string list"

fun apply_event :: "event \<Rightarrow> shared \<Rightarrow> shared" where
  "apply_event (Emit c r) sh = sh\<lparr>extracted_data := extracted_data sh @ [r]\<rparr>"
| "apply_event (Log m) sh = sh\<lparr>log := log sh @ [m]\<rparr>"

text \<open>\<open>extract_steps_from_file\<close> run by one worker alone: the loop of line 153 over
  the queue.\<close>

fun extract_steps_from_file :: "filesystem \<Rightarrow> task list \<Rightarrow> shared \<Rightarrow> shared" where
  "extract_steps_from_file fs [] sh = sh"
| "extract_steps_from_file fs (t # queue) sh =
     extract_steps_from_file fs queue (fold apply_event (file_events fs t) sh)"

definition emitted :: "event list \<Rightarrow> extracted list" where
  "emitted evs = concat (map (\<lambda>ev. case ev of Emit c r \<Rightarrow> [r] | Log m \<Rightarrow> []) evs)"

definition logged :: "event list \<Rightarrow> string list" where
  "logged evs = concat (map (\<lambda>ev. case ev of Emit c r \<Rightarrow> [] | Log m \<Rightarrow> [m]) evs)"

definition captures :: "event list \<Rightarrow> capture list" where
  "captures evs = concat (map (\<lambda>ev. case ev of Emit c r \<Rightarrow> [c] | Log m \<Rightarrow> []) evs)"

section \<open>The coordinator\<close>

text \<open>The configuration as far as lines 334 to 344 read it: the optional mapping
  \<^verbatim>\<open>performance\<close>. \<^verbatim>\<open>config.get('performance', {}).get('threads', 4)\<close>.\<close>

record config =
  performance :: "(string \<rightharpoonup> int) option"

definition num_threads :: "config \<Rightarrow> int" where
  "num_threads cfg =
     (case performance cfg of
        None \<Rightarrow> 4
      | Some d \<Rightarrow> (case d ''threads'' of None \<Rightarrow> 4 | Some n \<Rightarrow> n))"

text \<open>\<^verbatim>\<open>range(n)\<close>, and the loop of line 337 that starts one thread for each of its
  elements: the number of threads started.\<close>

definition py_range :: "int \<Rightarrow> int list" where
  "py_range n = map int [0 ..< nat n]"

definition workers_launched :: "config \<Rightarrow> nat \<Rightarrow> nat" where
  "workers_launched cfg qsize = length (py_range (min (num_threads cfg) (int qsize)))"

text \<open>
  The workers of lines 335 to 344 share the queue and the list \<open>extracted_data\<close>. A
  worker is about to test \<^verbatim>\<open>file_queue.empty()\<close> (\<open>Checking\<close>), about to call
  \<^verbatim>\<open>file_queue.get()\<close> (\<open>Getting\<close>; the call waits while the queue is empty), busy
  with the events of a file (\<open>Working\<close>, each append under the lock being one step), or
  past its loop (\<open>Finished\<close>). A step of the pool is a step of one of its workers; the
  files are not changed while the pool runs.
\<close>

datatype wstate = Checking | Getting | Working "event list" | Finished

record pool =
  file_queue :: "task list"
  results :: shared
  workers :: "wstate list"

inductive step :: "filesystem \<Rightarrow> pool \<Rightarrow> pool \<Rightarrow> bool" for fs where
  queue_empty:
    "k < length (workers s) \<Longrightarrow> workers s ! k = Checking \<Longrightarrow> file_queue s = [] \<Longrightarrow>
     step fs s (s\<lparr>workers := (workers s)[k := Finished]\<rparr>)"
| queue_nonempty:
    "k < length (workers s) \<Longrightarrow> workers s ! k = Checking \<Longrightarrow> file_queue s \<noteq> [] \<Longrightarrow>
     step fs s (s\<lparr>workers := (workers s)[k := Getting]\<rparr>)"
| get_task:
    "k < length (workers s) \<Longrightarrow> workers s ! k = Getting \<Longrightarrow> file_queue s = t # q \<Longrightarrow>
     step fs s (s\<lparr>file_queue := q, workers := (workers s)[k := Working (file_events fs t)]\<rparr>)"
| do_event:
    "k < length (workers s) \<Longrightarrow> workers s ! k = Working (ev # evs) \<Longrightarrow>
     step fs s (s\<lparr>results := apply_event ev (results s),
                   workers := (workers s)[k := Working evs]\<rparr>)"
| task_done:
    "k < length (workers s) \<Longrightarrow> workers s ! k = Working [] \<Longrightarrow>
     step fs s (s\<lparr>workers := (workers s)[k := Checking]\<rparr>)"

text \<open>The pool when the threads have been started. A pool is halted when no worker can
  move: every worker has left its loop or waits in \<^verbatim>\<open>file_queue.get()\<close> on the empty
  queue, where it waits for ever. The run is completed, so that every
  \<^verbatim>\<open>thread.join()\<close> of line 344 returns, only when every worker has left its loop.\<close>

definition start_pool :: "task list \<Rightarrow> nat \<Rightarrow> pool" where
  "start_pool q n =
     \<lparr>file_queue = q, results = \<lparr>extracted_data = [], log = []\<rparr>, workers = replicate n Checking\<rparr>"

definition cannot_move :: "task list \<Rightarrow> wstate \<Rightarrow> bool" where
  "cannot_move q w = (case w of Finished \<Rightarrow> True | Getting \<Rightarrow> q = [] | _ \<Rightarrow> False)"

definition halted :: "pool \<Rightarrow> bool" where
  "halted s = list_all (cannot_move (file_queue s)) (workers s)"

definition completed :: "pool \<Rightarrow> bool" where
  "completed s = (\<forall>w \<in> set (workers s). w = Finished)"



definition weight :: "wstate \<Rightarrow> nat" where
  "weight w = (case w of Finished \<Rightarrow> 0 | Getting \<Rightarrow> 1 | Checking \<Rightarrow> 2
               | Working evs \<Rightarrow> length evs + 3)"

definition work_left :: "filesystem \<Rightarrow> pool \<Rightarrow> nat" where
  "work_left fs s =
     sum_list (map weight (workers s)) +
     sum_list (map (\<lambda>t. length (file_events fs t) + 3) (file_queue s))"

section \<open>Inputs used in the examples\<close>


definition fs_proc_unreadable :: filesystem where
  "fs_proc_unreadable =
     \<lparr>node = (\<lambda>p. if p = ''/procs/MYPROC.proc'' then Unreadable ''Permission denied''
                    else if p = ''/cntl/UTIL.incl'' then File ''IEBGENER\<newline>''
                    else Absent),
      walk = (\<lambda>p. if p = ''/cntl'' then [(''/cntl'', [''UTIL.incl''])] else [])\<rparr>"

definition fs_proc_missing :: filesystem where
  "fs_proc_missing =
     \<lparr>node = (\<lambda>p. if p = ''/cntl/UTIL.incl'' then File ''IEBGENER\<newline>'' else Absent),
      walk = (\<lambda>p. if p = ''/cntl'' then [(''/cntl'', [''UTIL.incl''])] else [])\<rparr>"


definition all_utilities :: "string set" where
  "all_utilities = set [''IDCAMS'', ''IEBGENER'']"

definition fs_jobs :: filesystem where
  "fs_jobs =
     \<lparr>node = (\<lambda>p.
         if p = ''/jcl/BACKUP.jcl''
         then File ''//* Backup volume\<newline>//STEP1 EXEC PGM=IDCAMS\<newline>//SYSIN DD *\<newline>  DELETE X.Y\<newline>/*\<newline>//OUT DD DSN=X.Y(MEM)\<newline>''
         else if p = ''/jcl/COPY.jcl''
         then File ''// SET UTILNAME=IEBGENER\<newline>//S1 EXEC PGM=IDCAMS\<newline>//SYSPRINT DD SYSOUT=*\<newline>//S2 EXEC &UTILNAME\<newline>//SYSUT1 DD DUMMY\<newline>''
         else if p = ''/jcl/BROKEN.jcl''
         then File ''//STEP1 EXEC PGM=IDCAMS\<newline>//SYSPRINT DD SYSOUT=*\<newline>\<newline>//RUN EXEC MYPROC\<newline>//S2 EXEC &UTIL\<newline>''
         else if p = ''/procs/MYPROC.proc'' then Unreadable ''Permission denied''
         else Absent),
      walk = (\<lambda>p. [])\<rparr>"

definition job :: "string \<Rightarrow> task" where
  "job p = \<lparr>file_path = p, utilities = all_utilities, file_type = ''JCL'',
            cntllib_path = ''/cntl'', proc_libraries = [''/procs'']\<rparr>"

definition broken_lines :: "string list" where
  "broken_lines = [''//STEP1 EXEC PGM=IDCAMS\<newline>'', ''//SYSPRINT DD SYSOUT=*\<newline>'', ''\<newline>'',
                   ''//RUN EXEC MYPROC\<newline>'', ''//S2 EXEC &UTIL\<newline>'']"

definition backup_text :: string where
  "backup_text = ''//* Backup volume\<newline>//STEP1 EXEC PGM=IDCAMS\<newline>//SYSIN DD *\<newline>  DELETE X.Y\<newline>/*\<newline>//OUT DD DSN=X.Y(MEM)\<newline>''"

definition backup_step :: extracted where
  "backup_step =
     \<lparr>fileName = ''BACKUP.jcl'', fileType = ''JCL'', stepName = ''STEP1'',
      stepBlockText = ''//STEP1 EXEC PGM=IDCAMS\<newline>//SYSIN DD *\<newline>//OUT DD DSN=X.Y(MEM)'',
      resolvedProgramName = ''IDCAMS'', sysinType = ''Inline SYSIN'',
      sysinStatementText = ''//SYSIN DD *'', controlCardMember = [],
      controlCardContent = [], precedingCommentsText = ''//* Backup volume''\<rparr>"

definition broken_step :: extracted where
  "broken_step =
     \<lparr>fileName = ''BROKEN.jcl'', fileType = ''JCL'', stepName = ''STEP1'',
      stepBlockText = ''//STEP1 EXEC PGM=IDCAMS\<newline>//SYSPRINT DD SYSOUT=*'',
      resolvedProgramName = ''IDCAMS'', sysinType = ''None'',
      sysinStatementText = [], controlCardMember = [],
      controlCardContent = [], precedingCommentsText = []\<rparr>"



definition threads_cfg :: "int \<Rightarrow> config" where
  "threads_cfg n = \<lparr>performance = Some [''threads'' \<mapsto> n]\<rparr>"

section \<open>Capture windows, by line index\<close>

text \<open>A list of captures is chained from a boundary \<open>b\<close> and a lower bound \<open>lo\<close> when
  each capture has its EXEC line at \<open>lo\<close> or later, its comment lines between the
  boundary and the EXEC line, its block lines strictly between the EXEC line and its end,
  and the next capture is chained from that end and from the line after the EXEC line.\<close>

fun chained :: "nat \<Rightarrow> nat \<Rightarrow> capture list \<Rightarrow> bool" where
  "chained b lo [] = True"
| "chained b lo (c # cs) =
     (lo \<le> exec_at c \<and> (\<forall>k \<in> set (comments_at c). b \<le> k \<and> k < exec_at c) \<and>
      (\<forall>k \<in> set (block_at c). exec_at c < k \<and> k < step_end c) \<and>
      exec_at c < step_end c \<and> chained (step_end c) (Suc (exec_at c)) cs)"

section \<open>Source 1 before source 3\<close>


lemma first_match_Cat:
  "first_match a s st = Some x \<Longrightarrow> first_match b s x = Some y \<Longrightarrow>
   first_match (Cat a b) s st = Some y"
  by (auto simp: first_match_def split: list.splits)

lemma first_match_Atom:
  "p < length s \<Longrightarrow> cmatch c (s ! p) \<Longrightarrow> first_match (Atom c) s (p, g) = Some (Suc p, g)"
  by (simp add: first_match_def)

lemma first_match_Plus:
  "0 < run c s p \<Longrightarrow> first_match (Plus c) s (p, g) = Some (p + run c s p, g)"
  by (cases "run c s p") (simp_all add: first_match_def)

lemma first_match_Grp:
  "first_match a s (p, g) = Some (q, g') \<Longrightarrow>
   first_match (Grp k a) s (p, g) = Some (q, (k, p, q) # g')"
  by (auto simp: first_match_def split: list.splits)

lemma re_match_first: "re_match r s = first_match r s (0, [])"
  by (simp add: re_match_def first_match_def)

lemma run_append:
  "length pre = p \<Longrightarrow> \<forall>x \<in> set xs. cmatch c x \<Longrightarrow> (rest = [] \<or> \<not> cmatch c (hd rest)) \<Longrightarrow>
   run c (pre @ xs @ rest) p = length xs"
  by (cases rest) (auto simp: run_def takeWhile_tail takeWhile_eq_all_conv [THEN iffD2])

text \<open>A SET statement in its plain form, \<^verbatim>\<open>// SET <NAME>=<value>\<close>, gives the
  parameter its value, stripped, when the names agree in upper case.\<close>

lemma set_statement_line:
  assumes n: "name \<noteq> []" "\<forall>c \<in> set name. is_word c"
      and v: "val \<noteq> []" "CHR 0x0A \<notin> set val"
      and u: "upper name = upper p"
  shows "set_statement p (''// SET '' @ name @ ''='' @ val @ ''\<newline>'') = Some (strip val)"
proof -
  let ?s = "''// SET '' @ name @ ''='' @ val @ ''\<newline>''"
  let ?n = "length name" and ?v = "length val"
  have sp: "is_space CHR '' ''" "\<not> is_space CHR ''S''" "\<not> is_word CHR ''=''"
    by (simp_all add: is_space_def is_word_def lower_letters_def upper_letters_def)
  have a: "first_match (liti ''//'') ?s (0, []) = Some (2, [])"
    by (simp add: liti_def first_match_def numeral_2_eq_2)
  have r1: "run Space ?s 2 = 1"
    using run_append [of "''//''" 2 "'' ''" Space "''SET '' @ name @ ''='' @ val @ ''\<newline>''"]
    by (simp add: sp)
  have b: "first_match (Plus Space) ?s (2, []) = Some (3, [])"
    using first_match_Plus [of Space ?s 2 "[]"] r1 by simp
  have c: "first_match (liti ''SET'') ?s (3, []) = Some (6, [])"
    by (simp add: liti_def first_match_def eval_nat_numeral)
  have r2: "run Space ?s 6 = 1"
    using run_append [of "''// SET''" 6 "'' ''" Space "name @ ''='' @ val @ ''\<newline>''"] n sp
    by (cases name) (auto simp: is_word_def is_space_def lower_letters_def upper_letters_def)
  have d: "first_match (Plus Space) ?s (6, []) = Some (7, [])"
    using first_match_Plus [of Space ?s 6 "[]"] r2 by simp
  have r3: "run WordC ?s 7 = ?n"
    using run_append [of "''// SET ''" 7 name WordC "''='' @ val @ ''\<newline>''"] n sp by simp
  have e: "first_match (Grp 1 (Plus WordC)) ?s (7, []) = Some (7 + ?n, [(1, 7, 7 + ?n)])"
    using first_match_Grp [OF first_match_Plus [of WordC ?s 7 "[]"], of 1] r3 n by simp
  have eqc: "?s ! (7 + ?n) = CHR ''=''"
    using nth_append_length [of "''// SET '' @ name" "CHR ''=''" "val @ ''\<newline>''"] by simp
  have f: "first_match (liti ''='') ?s (7 + ?n, [(1, 7, 7 + ?n)]) = Some (8 + ?n, [(1, 7, 7 + ?n)])"
    using first_match_Atom [of "7 + ?n" ?s "LitI CHR ''=''" "[(1, 7, 7 + ?n)]"] eqc
    by (simp add: liti_def)
  have r4: "run Dot ?s (8 + ?n) = ?v"
    using run_append [of "''// SET '' @ name @ ''=''" "8 + ?n" val Dot "''\<newline>''"] v by auto
  have g: "first_match (Grp 2 (Plus Dot)) ?s (8 + ?n, [(1, 7, 7 + ?n)])
             = Some (8 + ?n + ?v, [(2, 8 + ?n, 8 + ?n + ?v), (1, 7, 7 + ?n)])"
    using first_match_Grp [OF first_match_Plus [of Dot ?s "8 + ?n" "[(1, 7, 7 + ?n)]"], of 2] r4 v
    by simp
  have m: "re_match rx_set ?s = Some (8 + ?n + ?v, [(2, 8 + ?n, 8 + ?n + ?v), (1, 7, 7 + ?n)])"
    unfolding re_match_first rx_set_def seq.simps
    by (rule first_match_Cat [OF a], rule first_match_Cat [OF b], rule first_match_Cat [OF c],
        rule first_match_Cat [OF d], rule first_match_Cat [OF e], rule first_match_Cat [OF f],
        rule g)
  have g1: "group ?s (8 + ?n + ?v, [(2, 8 + ?n, 8 + ?n + ?v), (1, 7, 7 + ?n)]) 1 = name"
    by (simp add: group_def)
  have "drop (8 + ?n) ?s = val @ ''\<newline>''"
    using drop_append [of "8 + ?n" "''// SET '' @ name @ ''=''" "val @ ''\<newline>''"] by simp
  then have g2: "group ?s (8 + ?n + ?v, [(2, 8 + ?n, 8 + ?n + ?v), (1, 7, 7 + ?n)]) 2 = val"
    by (simp add: group_def)
  show ?thesis using m g1 g2 u by (simp add: set_statement_def)
qed



section \<open>Sources 2 and 3\<close>






section \<open>Exceptions in the resolver\<close>

text \<open>
  C3. Only the reads of the walk over the CNTLLIB stand inside a handler. A PROC file
  that exists and cannot be read makes the resolver raise: the exception leaves
  \<open>resolve_symbolic_parameter\<close>, although the direct CNTLLIB member would have given
  \<open>IEBGENER\<close>, as it does when the PROC file is missing.
\<close>

theorem unreadable_proc_propagates:
  "resolve_symbolic_parameter fs_proc_unreadable ''UTIL'' [''//S1 EXEC MYPROC\<newline>'']
     [''/procs''] ''/cntl'' = Inl (OSError ''Permission denied'') \<and>
   resolve_symbolic_parameter fs_proc_missing ''UTIL'' [''//S1 EXEC MYPROC\<newline>'']
     [''/procs''] ''/cntl'' = Inr (Some ''IEBGENER'')"
  by code_simp

text \<open>The walk, the sibling path: a file that cannot be read is skipped.\<close>

lemma walk_files_skips_unreadable:
  "open_read fs (os_path_join root file) = Inl e \<Longrightarrow>
   walk_files fs p root (file # files) = walk_files fs p root files"
  by simp

section \<open>Control cards never raise\<close>




section \<open>The number of workers\<close>

text \<open>
  C7, as the claim states it, fails. With a configured count of -2 and three queued
  files the smaller of the two numbers is -2, and the loop of line 337, which runs over
  \<^verbatim>\<open>range(-2)\<close>, starts no thread.
\<close>

theorem workers_launched_counterexample:
  "num_threads (threads_cfg (- 2)) = - 2 \<and>
   min (num_threads (threads_cfg (- 2))) (int 3) = - 2 \<and>
   workers_launched (threads_cfg (- 2)) 3 = 0"
  by (simp add: workers_launched_def py_range_def num_threads_def threads_cfg_def)

text \<open>
  C7, amended. The loop of line 337 starts one thread for each element of
  \<^verbatim>\<open>range(min(num_threads, file_queue.qsize()))\<close>: the smaller of the configured
  count and the queue length when the configured count is not negative, and no thread
  when it is negative; never more than there are queued files. The configured count is
  the value of \<^verbatim>\<open>threads\<close> in the mapping \<^verbatim>\<open>performance\<close>, and 4 when the
  configuration has no such mapping or the mapping has no \<^verbatim>\<open>threads\<close>.
\<close>

theorem workers_launched_amended:
  "int (workers_launched cfg qsize) = max 0 (min (num_threads cfg) (int qsize)) \<and>
   (0 \<le> num_threads cfg \<longrightarrow> int (workers_launched cfg qsize) = min (num_threads cfg) (int qsize)) \<and>
   (num_threads cfg < 0 \<longrightarrow> workers_launched cfg qsize = 0) \<and>
   workers_launched cfg qsize \<le> qsize \<and>
   (\<forall>d n. performance cfg = Some d \<longrightarrow> d ''threads'' = Some n \<longrightarrow> num_threads cfg = n) \<and>
   (\<forall>d. performance cfg = Some d \<longrightarrow> d ''threads'' = None \<longrightarrow> num_threads cfg = 4) \<and>
   (performance cfg = None \<longrightarrow> num_threads cfg = 4)"
  by (auto simp: workers_launched_def py_range_def num_threads_def)

theorem workers_launched_amended_witness:
  "workers_launched (threads_cfg 8) 10 = 8 \<and>
   workers_launched (threads_cfg 2) 10 = 2 \<and>
   workers_launched (threads_cfg 8) 3 = 3 \<and>
   workers_launched (threads_cfg (- 2)) 3 = 0 \<and>
   workers_launched \<lparr>performance = None\<rparr> 10 = 4 \<and>
   workers_launched \<lparr>performance = Some Map.empty\<rparr> 100 = 4"
proof -
  have n8: "num_threads (threads_cfg 8) = 8"
    using workers_launched_amended [of "threads_cfg 8" 0] by (simp add: threads_cfg_def)
  have n2: "num_threads (threads_cfg 2) = 2"
    using workers_launched_amended [of "threads_cfg 2" 0] by (simp add: threads_cfg_def)
  have nm: "num_threads (threads_cfg (- 2)) = - 2"
    using workers_launched_amended [of "threads_cfg (- 2)" 0] by (simp add: threads_cfg_def)
  have d1: "num_threads \<lparr>performance = None\<rparr> = 4"
    using workers_launched_amended [of "\<lparr>performance = None\<rparr>" 0] by simp
  have d2: "num_threads \<lparr>performance = Some Map.empty\<rparr> = 4"
    using workers_launched_amended [of "\<lparr>performance = Some Map.empty\<rparr>" 0] by simp
  have a: "int (workers_launched (threads_cfg 8) 10) = 8"
    using workers_launched_amended [of "threads_cfg 8" 10] unfolding n8 by simp
  have b: "int (workers_launched (threads_cfg 2) 10) = 2"
    using workers_launched_amended [of "threads_cfg 2" 10] unfolding n2 by simp
  have c: "int (workers_launched (threads_cfg 8) 3) = 3"
    using workers_launched_amended [of "threads_cfg 8" 3] unfolding n8 by simp
  have d: "int (workers_launched (threads_cfg (- 2)) 3) = 0"
    using workers_launched_amended [of "threads_cfg (- 2)" 3] unfolding nm by simp
  have e: "int (workers_launched \<lparr>performance = None\<rparr> 10) = 4"
    using workers_launched_amended [of "\<lparr>performance = None\<rparr>" 10] unfolding d1 by simp
  have f: "int (workers_launched \<lparr>performance = Some Map.empty\<rparr> 100) = 4"
    using workers_launched_amended [of "\<lparr>performance = Some Map.empty\<rparr>" 100]
    unfolding d2 by simp
  from a b c d e f show ?thesis by simp
qed

section \<open>Lemmas on the scans\<close>

lemma captures_append: "captures (xs @ ys) = captures xs @ captures ys"
  by (simp add: captures_def)

lemma emitted_append: "emitted (xs @ ys) = emitted xs @ emitted ys"
  by (simp add: emitted_def)

lemma captures_logs: "captures (map Log msgs) = []"
  by (induction msgs) (auto simp: captures_def)

lemma emitted_logs: "emitted (map Log msgs) = []"
  by (induction msgs) (auto simp: emitted_def)

lemma back_scan_subset: "set (back_scan lines js) \<subseteq> set js"
  by (induction js) auto

lemma fwd_scan_bounds:
  "sorted_wrt (<) js \<Longrightarrow> \<forall>j \<in> set js. j < length lines \<Longrightarrow> fwd_scan lines js = (cap, stop) \<Longrightarrow>
   (\<forall>k \<in> set cap. k \<in> set js \<and> k < stop) \<and> (stop \<in> set js \<or> stop = length lines)"
proof (induction js arbitrary: cap stop)
  case Nil
  then show ?case by simp
next
  case (Cons j js)
  show ?case
  proof (cases "re_match rx_exec_pgm (lines ! j) \<noteq> None \<or> strip (lines ! j) = []")
    case True
    with Cons.prems(3) show ?thesis by (auto split: if_splits)
  next
    case False
    obtain cap' stop' where r: "fwd_scan lines js = (cap', stop')" by (cases "fwd_scan lines js")
    have s: "sorted_wrt (<) js" and b: "\<forall>j \<in> set js. j < length lines"
      using Cons.prems by auto
    from Cons.IH [OF s b r]
    have ih: "(\<forall>k \<in> set cap'. k \<in> set js \<and> k < stop') \<and> (stop' \<in> set js \<or> stop' = length lines)" .
    have jlt: "j < stop'" using ih Cons.prems(1,2) by auto
    from Cons.prems(3) False r
    have "stop = stop'" and "cap = (if startswith ''//'' (lines ! j) then j # cap' else cap')"
      by auto
    then show ?thesis using ih jlt by auto
  qed
qed

lemma capture_step_bounds:
  assumes "i < length lines"
  shows "exec_at (capture_step lines i lse) = i \<and>
         (\<forall>k \<in> set (comments_at (capture_step lines i lse)). lse \<le> k \<and> k < i) \<and>
         (\<forall>k \<in> set (block_at (capture_step lines i lse)). i < k \<and> k < step_end (capture_step lines i lse)) \<and>
         i < step_end (capture_step lines i lse) \<and>
         step_end (capture_step lines i lse) \<le> length lines"
proof -
  obtain cap stop where r: "fwd_scan lines [Suc i ..< length lines] = (cap, stop)"
    by (cases "fwd_scan lines [Suc i ..< length lines]")
  have "sorted_wrt (<) [Suc i ..< length lines]" by simp
  moreover have "\<forall>j \<in> set [Suc i ..< length lines]. j < length lines" by simp
  ultimately have f: "(\<forall>k \<in> set cap. k \<in> set [Suc i ..< length lines] \<and> k < stop) \<and>
      (stop \<in> set [Suc i ..< length lines] \<or> stop = length lines)"
    using fwd_scan_bounds r by blast
  have bs: "set (back_scan lines (rev [lse ..< i])) \<subseteq> set (rev [lse ..< i])"
    by (rule back_scan_subset)
  show ?thesis using f bs assms by (auto simp: capture_step_def r)
qed

lemma emit_step_shape:
  "emit_step fs t lines i lse sn pn = (evs, r) \<Longrightarrow>
   (evs = [] \<and> (\<exists>e. r = Inl e)) \<or>
   (\<exists>logged rec. evs = map Log logged @ [Emit (capture_step lines i lse) rec] \<and>
      resolvedProgramName rec = pn \<and>
      stepBlockText rec = join_nl (strip (lines ! i) #
          map (\<lambda>j. strip (lines ! j)) (block_at (capture_step lines i lse))) \<and>
      r = Inr (step_end (capture_step lines i lse)))"
  by (auto simp: emit_step_def Let_def split: sum.splits prod.splits)

lemma scan_line_shape:
  "scan_line fs t lines i lse = (evs, r) \<Longrightarrow>
   (captures evs = [] \<and> emitted evs = [] \<and> (r = Inr lse \<or> (\<exists>e. r = Inl e))) \<or>
   (\<exists>logged rec. evs = map Log logged @ [Emit (capture_step lines i lse) rec] \<and>
      resolvedProgramName rec \<in> utilities t \<and>
      re_match rx_exec (lines ! i) \<noteq> None \<and>
      stepBlockText rec = join_nl (strip (lines ! i) #
          map (\<lambda>j. strip (lines ! j)) (block_at (capture_step lines i lse))) \<and>
      r = Inr (step_end (capture_step lines i lse)))"
  apply (auto simp: scan_line_def Let_def captures_def emitted_def split: if_splits option.splits sum.splits dest!: emit_step_shape)
  done

lemma scan_lines_chained:
  "sorted_wrt (<) js \<Longrightarrow> \<forall>i \<in> set js. i < length lines \<and> lo \<le> i \<Longrightarrow>
   chained lse lo (captures (fst (scan_lines fs t lines js lse)))"
proof (induction js arbitrary: lse lo)
  case Nil
  then show ?case by (simp add: captures_def)
next
  case (Cons i js)
  obtain evs r where sl: "scan_line fs t lines i lse = (evs, r)"
    by (cases "scan_line fs t lines i lse")
  have s: "sorted_wrt (<) js" using Cons.prems by simp
  have il: "i < length lines" and loi: "lo \<le> i" using Cons.prems by auto
  have b1: "\<forall>k \<in> set js. k < length lines \<and> lo \<le> k" using Cons.prems by auto
  have b2: "\<forall>k \<in> set js. k < length lines \<and> Suc i \<le> k" using Cons.prems by auto
  from scan_line_shape [OF sl] show ?case
  proof (elim disjE conjE exE)
    assume c: "captures evs = []" and r: "r = Inr lse"
    obtain evs' r' where rest: "scan_lines fs t lines js lse = (evs', r')"
      by (cases "scan_lines fs t lines js lse")
    have "chained lse lo (captures (fst (scan_lines fs t lines js lse)))"
      by (rule Cons.IH [OF s b1])
    then show ?thesis using sl r c rest by (simp add: captures_append)
  next
    fix e assume c: "captures evs = []" and r: "r = Inl e"
    then show ?thesis using sl by simp
  next
    fix logged rec
    assume ev: "evs = map Log logged @ [Emit (capture_step lines i lse) rec]"
       and r: "r = Inr (step_end (capture_step lines i lse))"
    let ?c = "capture_step lines i lse"
    obtain evs' r' where rest: "scan_lines fs t lines js (step_end ?c) = (evs', r')"
      by (cases "scan_lines fs t lines js (step_end ?c)")
    have ih: "chained (step_end ?c) (Suc i) (captures (fst (scan_lines fs t lines js (step_end ?c))))"
      by (rule Cons.IH [OF s b2])
    have cap: "captures evs = [?c]"
      by (simp add: ev captures_append captures_logs) (simp add: captures_def)
    show ?thesis
      using sl r rest ih cap capture_step_bounds [OF il, of lse] loi
      by (simp add: captures_append)
  qed
qed

lemma scan_lines_members:
  "r \<in> set (emitted (fst (scan_lines fs t lines js lse))) \<Longrightarrow> resolvedProgramName r \<in> utilities t"
proof (induction js arbitrary: lse)
  case Nil
  then show ?case by (simp add: emitted_def)
next
  case (Cons i js)
  obtain evs res where sl: "scan_line fs t lines i lse = (evs, res)"
    by (cases "scan_line fs t lines i lse")
  have here: "\<forall>x \<in> set (emitted evs). resolvedProgramName x \<in> utilities t"
    using scan_line_shape [OF sl]
    by (auto simp: emitted_append emitted_logs) (auto simp: emitted_def)
  show ?case
  proof (cases res)
    case (Inl e)
    with Cons.prems sl here show ?thesis by auto
  next
    case (Inr n)
    obtain evs' r' where rest: "scan_lines fs t lines js n = (evs', r')"
      by (cases "scan_lines fs t lines js n")
    from Cons.prems sl Inr rest
    have "r \<in> set (emitted evs) \<or> r \<in> set (emitted (fst (scan_lines fs t lines js n)))"
      by (auto simp: emitted_append)
    then show ?thesis using here Cons.IH by blast
  qed
qed

lemma file_events_emitted:
  "emitted (file_events fs t) =
     (case open_read fs (file_path t) of Inl e \<Rightarrow> []
      | Inr content \<Rightarrow> emitted (fst (scan_lines fs t (readlines content) [0 ..< length (readlines content)] 0)))"
  by (auto simp: file_events_def Let_def emitted_def split: sum.splits prod.splits option.splits)

lemma file_events_captures:
  "captures (file_events fs t) =
     (case open_read fs (file_path t) of Inl e \<Rightarrow> []
      | Inr content \<Rightarrow> captures (fst (scan_lines fs t (readlines content) [0 ..< length (readlines content)] 0)))"
  by (auto simp: file_events_def Let_def captures_def split: sum.splits prod.splits option.splits)

lemma file_events_members:
  "r \<in> set (emitted (file_events fs t)) \<Longrightarrow> resolvedProgramName r \<in> utilities t"
  by (auto simp: file_events_emitted split: sum.splits dest: scan_lines_members)

lemma file_events_chained: "chained 0 0 (captures (file_events fs t))"
  by (auto simp: file_events_captures split: sum.splits intro!: scan_lines_chained)

lemma fold_apply_event:
  "extracted_data (fold apply_event evs sh) = extracted_data sh @ emitted evs"
proof (induction evs arbitrary: sh)
  case Nil
  then show ?case by (simp add: emitted_def)
next
  case (Cons ev evs)
  then show ?case by (cases ev) (simp_all add: emitted_def)
qed

lemma worker_extracted:
  "extracted_data (extract_steps_from_file fs queue sh)
     = extracted_data sh @ concat (map (\<lambda>t. emitted (file_events fs t)) queue)"
  by (induction queue arbitrary: sh) (simp_all add: fold_apply_event)

lemma chained_adjacent:
  "chained lse lo cs \<Longrightarrow> Suc k < length cs \<Longrightarrow>
   (\<forall>j \<in> set (comments_at (cs ! Suc k)). step_end (cs ! k) \<le> j \<and> j < exec_at (cs ! Suc k)) \<and>
   (\<forall>j \<in> set (comments_at (cs ! k)). j < exec_at (cs ! k)) \<and>
   (\<forall>j \<in> set (block_at (cs ! k)). exec_at (cs ! k) < j \<and> j < step_end (cs ! k)) \<and>
   (\<forall>j \<in> set (block_at (cs ! Suc k)). exec_at (cs ! Suc k) < j) \<and>
   exec_at (cs ! k) < step_end (cs ! k) \<and> exec_at (cs ! k) < exec_at (cs ! Suc k)"
proof (induction cs arbitrary: lse lo k)
  case Nil
  then show ?case by simp
next
  case (Cons a cs)
  show ?case
  proof (cases k)
    case 0
    with Cons.prems obtain b rest where cs: "cs = b # rest" by (cases cs) auto
    with Cons.prems 0 show ?thesis by auto
  next
    case (Suc k')
    with Cons.prems have "chained (step_end a) (Suc (exec_at a)) cs" "Suc k' < length cs"
      by auto
    from Cons.IH [OF this] Suc show ?thesis by simp
  qed
qed

section \<open>Lemmas on strings and patterns\<close>

lemma to_upper_slash: "to_upper c = CHR ''/'' \<Longrightarrow> c = CHR ''/''"
  by (auto simp: to_upper_def lower_letters_def upper_letters_def split: if_splits)

lemma to_upper_slash_id: "to_upper CHR ''/'' = CHR ''/''"
  by (simp add: to_upper_def lower_letters_def upper_letters_def)

lemma ms_slashes:
  assumes "ms (Cat (Cat (Atom (LitI CHR ''/'')) (Atom (LitI CHR ''/''))) r) s (0, g) \<noteq> []"
  shows "startswith ''//'' s"
proof -
  from assms have a: "0 < length s" "cmatch (LitI CHR ''/'') (s ! 0)"
    by (auto split: if_splits)
  with assms have b: "1 < length s" "cmatch (LitI CHR ''/'') (s ! 1)"
    by (auto split: if_splits)
  from a b have "s ! 0 = CHR ''/''" "s ! 1 = CHR ''/''"
    by (auto simp: to_upper_slash_id dest: to_upper_slash)
  with a b show ?thesis
    by (cases s; cases "tl s") (auto simp: startswith_def)
qed

lemma re_match_ms: "re_match r l \<noteq> None \<Longrightarrow> ms r l (0, []) \<noteq> []"
  by (auto simp: re_match_def)

lemma rx_exec_slashes:
  assumes "re_match rx_exec l \<noteq> None"
  shows "startswith ''//'' l"
proof -
  have "\<exists>r. rx_exec = Cat (Cat (Atom (LitI CHR ''/'')) (Atom (LitI CHR ''/''))) r"
    by (simp add: rx_exec_def liti_def)
  then obtain r where "rx_exec = Cat (Cat (Atom (LitI CHR ''/'')) (Atom (LitI CHR ''/''))) r" ..
  with re_match_ms [OF assms] show ?thesis by (metis ms_slashes)
qed

lemma rx_exec_pgm_slashes:
  assumes "re_match rx_exec_pgm l \<noteq> None"
  shows "startswith ''//'' l"
proof -
  have "\<exists>r. rx_exec_pgm = Cat (Cat (Atom (LitI CHR ''/'')) (Atom (LitI CHR ''/''))) r"
    by (simp add: rx_exec_pgm_def liti_def)
  then obtain r where "rx_exec_pgm = Cat (Cat (Atom (LitI CHR ''/'')) (Atom (LitI CHR ''/''))) r" ..
  with re_match_ms [OF assms] show ?thesis by (metis ms_slashes)
qed

lemma not_space_slash: "\<not> is_space CHR ''/''"
  by (simp add: is_space_def)

lemma dropWhile_keeps_suffix:
  "\<not> P a \<Longrightarrow> \<exists>ys. dropWhile P (xs @ a # zs) = ys @ a # zs"
proof (induction xs)
  case Nil
  then show ?case by simp
next
  case (Cons x xs)
  then show ?case by (cases "P x") (auto intro: exI [of _ "x # xs"])
qed

lemma strip_keeps_slashes:
  assumes "startswith ''//'' l"
  shows "startswith ''//'' (strip l)"
proof -
  from assms obtain rest where l: "l = CHR ''/'' # CHR ''/'' # rest"
    by (cases l; cases "tl l") (auto simp: startswith_def)
  have "rev l = rev rest @ CHR ''/'' # [CHR ''/'']" by (simp add: l)
  with dropWhile_keeps_suffix [of is_space "CHR ''/''" "rev rest" "[CHR ''/'']"]
  obtain ys where "dropWhile is_space (rev l) = ys @ CHR ''/'' # [CHR ''/'']"
    by (auto simp: not_space_slash)
  then show ?thesis by (simp add: strip_def l not_space_slash startswith_def)
qed

lemma readlines_newline:
  "l \<in> set (readlines c) \<Longrightarrow> CHR 0x0A \<notin> set (butlast l)"
proof (induction c arbitrary: l)
  case Nil
  then show ?case by simp
next
  case (Cons a c)
  then show ?case
    by (cases "readlines c") (auto split: if_splits)
qed

lemma space_newline: "is_space CHR 0x0A"
  by (simp add: is_space_def)

lemma butlast_dropWhile: "c \<notin> set (butlast l) \<Longrightarrow> c \<notin> set (butlast (dropWhile P l))"
  by (induction l) (auto split: if_splits)

lemma dropWhile_rev_last:
  assumes "c \<notin> set (butlast m)" and "P c"
  shows "c \<notin> set (dropWhile P (rev m))"
proof (cases m rule: rev_cases)
  case Nil
  then show ?thesis by simp
next
  case (snoc ys y)
  with assms show ?thesis by (auto dest: set_dropWhileD)
qed

lemma strip_no_newline:
  assumes "CHR 0x0A \<notin> set (butlast l)"
  shows "CHR 0x0A \<notin> set (strip l)"
proof -
  have "CHR 0x0A \<notin> set (butlast (dropWhile is_space l))"
    using assms by (rule butlast_dropWhile)
  then have "CHR 0x0A \<notin> set (dropWhile is_space (rev (dropWhile is_space l)))"
    using space_newline by (rule dropWhile_rev_last [where P = is_space])
  then show ?thesis by (simp add: strip_def)
qed

lemma split_nl_line: "CHR 0x0A \<notin> set x \<Longrightarrow> split_nl x = [x]"
  by (induction x) auto

lemma split_nl_append:
  "CHR 0x0A \<notin> set x \<Longrightarrow> split_nl (x @ CHR 0x0A # rest) = x # split_nl rest"
  by (induction x) auto

lemma split_join:
  "xs \<noteq> [] \<Longrightarrow> \<forall>x \<in> set xs. CHR 0x0A \<notin> set x \<Longrightarrow> split_nl (join_nl xs) = xs"
proof (induction xs rule: join_nl.induct)
  case 1
  then show ?case by simp
next
  case (2 x)
  then show ?case by (simp add: split_nl_line)
next
  case (3 x y ys)
  then show ?case by (simp add: split_nl_append)
qed

lemma fwd_scan_slashes:
  "fwd_scan lines js = (cap, stop) \<Longrightarrow> \<forall>k \<in> set cap. startswith ''//'' (lines ! k)"
proof (induction js arbitrary: cap stop)
  case Nil
  then show ?case by simp
next
  case (Cons j js)
  then show ?case
    by (cases "fwd_scan lines js") (auto split: if_splits)
qed

section \<open>Membership in the utility set\<close>

lemma scan_line_skipped:
  assumes "re_match rx_exec (lines ! i) = Some m"
      and "resolve_program fs t lines (upper (group (lines ! i) m 2)) = Inr None \<or>
           (\<exists>pn. resolve_program fs t lines (upper (group (lines ! i) m 2)) = Inr (Some pn) \<and>
                 pn \<notin> utilities t)"
  shows "emitted (fst (scan_line fs t lines i lse)) = []"
  using assms by (auto simp: scan_line_def Let_def emitted_def)

text \<open>
  C5. Every record that the step extractor appends has a program name of the utility set
  of its task. A step is not emitted when its literal program name (in upper case) is
  not in the set, when its symbolic parameter does not resolve (the resolver returns
  nothing, or an empty string), and when the resolved value (in upper case) is not in
  the set.
\<close>

theorem emitted_programs_in_utilities:
  "(\<forall>r \<in> set (emitted (file_events fs t)). resolvedProgramName r \<in> utilities t) \<and>
   (\<forall>r \<in> set (extracted_data (extract_steps_from_file fs queue \<lparr>extracted_data = [], log = []\<rparr>)).
      \<exists>t' \<in> set queue. resolvedProgramName r \<in> utilities t') \<and>
   (\<forall>lines i lse m pn. re_match rx_exec (lines ! i) = Some m \<longrightarrow>
      pn = upper (group (lines ! i) m 2) \<longrightarrow>
      (\<not> startswith ''&'' pn \<and> pn \<notin> utilities t) \<or>
      (startswith ''&'' pn \<and>
         (resolve_symbolic_parameter fs (drop 1 pn) lines (proc_libraries t) (cntllib_path t)
            \<in> {Inr None, Inr (Some [])} \<or>
          (\<exists>v. resolve_symbolic_parameter fs (drop 1 pn) lines (proc_libraries t) (cntllib_path t)
                  = Inr (Some v) \<and> upper v \<notin> utilities t))) \<longrightarrow>
      emitted (fst (scan_line fs t lines i lse)) = [])"
proof (intro conjI ballI allI impI)
  fix r assume "r \<in> set (emitted (file_events fs t))"
  then show "resolvedProgramName r \<in> utilities t" by (rule file_events_members)
next
  fix r
  assume "r \<in> set (extracted_data (extract_steps_from_file fs queue \<lparr>extracted_data = [], log = []\<rparr>))"
  then obtain t' where "t' \<in> set queue" "r \<in> set (emitted (file_events fs t'))"
    by (auto simp: worker_extracted)
  then show "\<exists>t' \<in> set queue. resolvedProgramName r \<in> utilities t'"
    using file_events_members by blast
next
  fix lines i lse m pn
  assume m: "re_match rx_exec (lines ! i) = Some m"
     and pn: "pn = upper (group (lines ! i) m 2)"
     and c: "(\<not> startswith ''&'' pn \<and> pn \<notin> utilities t) \<or>
      (startswith ''&'' pn \<and>
         (resolve_symbolic_parameter fs (drop 1 pn) lines (proc_libraries t) (cntllib_path t)
            \<in> {Inr None, Inr (Some [])} \<or>
          (\<exists>v. resolve_symbolic_parameter fs (drop 1 pn) lines (proc_libraries t) (cntllib_path t)
                  = Inr (Some v) \<and> upper v \<notin> utilities t)))"
  from c have "resolve_program fs t lines pn = Inr None \<or>
      (\<exists>q. resolve_program fs t lines pn = Inr (Some q) \<and> q \<notin> utilities t)"
    by (cases "resolve_symbolic_parameter fs (drop 1 pn) lines (proc_libraries t) (cntllib_path t)")
       (auto simp: resolve_program_def split: option.splits)
  with m pn show "emitted (fst (scan_line fs t lines i lse)) = []"
    using scan_line_skipped by blast
qed


theorem emitted_programs_in_utilities_witness:
  "map resolvedProgramName (emitted (file_events fs_jobs (job ''/jcl/COPY.jcl'')))
     = [''IDCAMS'', ''IEBGENER''] \<and>
   ''IDCAMS'' \<in> utilities (job ''/jcl/COPY.jcl'') \<and>
   ''IEBGENER'' \<in> utilities (job ''/jcl/COPY.jcl'') \<and>
   re_match rx_exec (broken_lines ! 3) = Some (17, [(2, 11, 17), (1, 2, 5)]) \<and>
   upper (group (broken_lines ! 3) (17, [(2, 11, 17), (1, 2, 5)]) 2) = ''MYPROC'' \<and>
   ''MYPROC'' \<notin> utilities (job ''/jcl/BROKEN.jcl'') \<and>
   emitted (fst (scan_line fs_jobs (job ''/jcl/BROKEN.jcl'') broken_lines 3 2)) = []"
proof -
  let ?t = "job ''/jcl/COPY.jcl''" and ?b = "job ''/jcl/BROKEN.jcl''"
  let ?m = "(17, [(2, 11, 17), (1, 2, 5)]) :: mstate"
  have names: "map resolvedProgramName (emitted (file_events fs_jobs ?t)) = [''IDCAMS'', ''IEBGENER'']"
    by code_simp
  have m: "re_match rx_exec (broken_lines ! 3) = Some ?m"
    by code_simp
  have pn: "upper (group (broken_lines ! 3) ?m 2) = ''MYPROC''"
    by code_simp
  have lit: "\<not> startswith ''&'' ''MYPROC''" "''MYPROC'' \<notin> utilities ?b"
    by code_simp+
  have a: "\<forall>r \<in> set (emitted (file_events fs_jobs ?t)). resolvedProgramName r \<in> utilities ?t"
    using emitted_programs_in_utilities [of fs_jobs ?t "[]"] by blast
  have "\<forall>n \<in> set (map resolvedProgramName (emitted (file_events fs_jobs ?t))). n \<in> utilities ?t"
    using a by simp
  then have mem: "''IDCAMS'' \<in> utilities ?t" "''IEBGENER'' \<in> utilities ?t"
    unfolding names by simp_all
  have "emitted (fst (scan_line fs_jobs ?b broken_lines 3 2)) = []"
    using emitted_programs_in_utilities [of fs_jobs ?b "[]"] m pn lit by metis
  then show ?thesis using names m pn lit mem by simp
qed

section \<open>The lines of a step block\<close>

lemma capture_step_slashes:
  "\<forall>k \<in> set (block_at (capture_step lines i b)). startswith ''//'' (lines ! k)"
proof -
  obtain cap stop where r: "fwd_scan lines [Suc i ..< length lines] = (cap, stop)"
    by (cases "fwd_scan lines [Suc i ..< length lines]")
  from fwd_scan_slashes [OF r] show ?thesis by (simp add: capture_step_def r)
qed

lemma scan_lines_emit:
  "Emit c r \<in> set (fst (scan_lines fs t lines js lse)) \<Longrightarrow>
   \<exists>i \<in> set js. \<exists>b. c = capture_step lines i b \<and> re_match rx_exec (lines ! i) \<noteq> None \<and>
     stepBlockText r = join_nl (strip (lines ! i) # map (\<lambda>j. strip (lines ! j)) (block_at c))"
proof (induction js arbitrary: lse)
  case Nil
  then show ?case by simp
next
  case (Cons i js)
  obtain evs res where sl: "scan_line fs t lines i lse = (evs, res)"
    by (cases "scan_line fs t lines i lse")
  have here: "Emit c r \<in> set evs \<Longrightarrow> c = capture_step lines i lse \<and> re_match rx_exec (lines ! i) \<noteq> None \<and>
     stepBlockText r = join_nl (strip (lines ! i) # map (\<lambda>j. strip (lines ! j)) (block_at c))"
    using scan_line_shape [OF sl] by (auto simp: emitted_def captures_def split: event.splits)
  show ?case
  proof (cases res)
    case (Inl e)
    with Cons.prems sl here show ?thesis by auto
  next
    case (Inr n)
    obtain evs' r' where rest: "scan_lines fs t lines js n = (evs', r')"
      by (cases "scan_lines fs t lines js n")
    from Cons.prems sl Inr rest
    have "Emit c r \<in> set evs \<or> Emit c r \<in> set (fst (scan_lines fs t lines js n))"
      by auto
    then show ?thesis using here Cons.IH by fastforce
  qed
qed

lemma file_events_emit:
  assumes "open_read fs (file_path t) = Inr content" and "Emit c r \<in> set (file_events fs t)"
  shows "Emit c r \<in> set (fst (scan_lines fs t (readlines content) [0 ..< length (readlines content)] 0))"
proof -
  obtain evs res where
    "scan_lines fs t (readlines content) [0 ..< length (readlines content)] 0 = (evs, res)"
    by (cases "scan_lines fs t (readlines content) [0 ..< length (readlines content)] 0")
  with assms show ?thesis
    by (auto simp: file_events_def Let_def split: if_splits option.splits)
qed

lemma fwd_scan_skip:
  "\<not> startswith ''//'' (lines ! j) \<Longrightarrow> strip (lines ! j) \<noteq> [] \<Longrightarrow>
   fwd_scan lines (j # js) = fwd_scan lines js"
  using rx_exec_pgm_slashes [of "lines ! j"] by (auto split: prod.splits)

text \<open>
  C10. The text of the step block of every emitted step consists of the EXEC line and
  the lines captured below it, each stripped, and every one of them starts with
  \<^verbatim>\<open>//\<close>. In the forward scan a line that is not blank and does not start with
  \<^verbatim>\<open>//\<close> is passed over: it is not captured and the scan goes on with the lines
  after it.
\<close>

theorem step_block_lines:
  assumes "open_read fs (file_path t) = Inr content"
      and "Emit c r \<in> set (file_events fs t)"
  shows "split_nl (stepBlockText r)
           = strip (readlines content ! exec_at c) #
             map (\<lambda>j. strip (readlines content ! j)) (block_at c) \<and>
         re_match rx_exec (readlines content ! exec_at c) \<noteq> None \<and>
         (\<forall>l \<in> set (split_nl (stepBlockText r)). startswith ''//'' l) \<and>
         (\<forall>lines j js. \<not> startswith ''//'' (lines ! j) \<longrightarrow> strip (lines ! j) \<noteq> [] \<longrightarrow>
            fwd_scan lines (j # js) = fwd_scan lines js)"
proof -
  let ?lines = "readlines content"
  from scan_lines_emit [OF file_events_emit [OF assms]]
  obtain i b where i: "i < length ?lines" and c: "c = capture_step ?lines i b"
    and m: "re_match rx_exec (?lines ! i) \<noteq> None"
    and blk: "stepBlockText r = join_nl (strip (?lines ! i) # map (\<lambda>j. strip (?lines ! j)) (block_at c))"
    by auto
  from capture_step_bounds [OF i, of b] c
  have ex: "exec_at c = i" and bl: "\<forall>k \<in> set (block_at c). k < length ?lines"
    by auto
  let ?block = "strip (?lines ! i) # map (\<lambda>j. strip (?lines ! j)) (block_at c)"
  have nonl: "\<forall>x \<in> set ?block. CHR 0x0A \<notin> set x"
  proof -
    have "CHR 0x0A \<notin> set (strip (?lines ! k))" if "k < length ?lines" for k
      using that by (intro strip_no_newline readlines_newline [of _ content] nth_mem)
    then show ?thesis using i bl by auto
  qed
  have sl: "\<forall>x \<in> set ?block. startswith ''//'' x"
    using rx_exec_slashes [OF m] capture_step_slashes [of ?lines i b] c
    by (auto intro!: strip_keeps_slashes)
  have sp: "split_nl (stepBlockText r) = ?block"
    unfolding blk by (rule split_join [OF _ nonl]) simp
  show ?thesis
    using sp sl m ex fwd_scan_skip by (simp del: fwd_scan.simps)
qed


theorem step_block_lines_witness:
  "open_read fs_jobs (file_path (job ''/jcl/BACKUP.jcl'')) = Inr backup_text \<and>
   file_events fs_jobs (job ''/jcl/BACKUP.jcl'')
     = [Emit \<lparr>exec_at = 1, comments_at = [0], block_at = [2, 5], step_end = 6\<rparr> backup_step] \<and>
   split_nl (stepBlockText backup_step)
     = [''//STEP1 EXEC PGM=IDCAMS'', ''//SYSIN DD *'', ''//OUT DD DSN=X.Y(MEM)''] \<and>
   readlines backup_text ! 3 = ''  DELETE X.Y\<newline>'' \<and>
   fwd_scan (readlines backup_text) [3, 4, 5] = ([5], 6) \<and>
   fwd_scan (readlines backup_text) [4, 5] = ([5], 6)"
proof -
  let ?t = "job ''/jcl/BACKUP.jcl''"
  let ?c = "\<lparr>exec_at = 1, comments_at = [0], block_at = [2, 5], step_end = 6\<rparr>"
  have o: "open_read fs_jobs (file_path ?t) = Inr backup_text"
    by code_simp
  have f: "file_events fs_jobs ?t = [Emit ?c backup_step]"
    by code_simp
  then have e: "Emit ?c backup_step \<in> set (file_events fs_jobs ?t)"
    by simp
  have l: "strip (readlines backup_text ! 1) = ''//STEP1 EXEC PGM=IDCAMS''"
          "strip (readlines backup_text ! 2) = ''//SYSIN DD *''"
          "strip (readlines backup_text ! 5) = ''//OUT DD DSN=X.Y(MEM)''"
          "readlines backup_text ! 3 = ''  DELETE X.Y\<newline>''"
    by code_simp+
  have d: "\<not> startswith ''//'' (readlines backup_text ! 3)" "strip (readlines backup_text ! 3) \<noteq> []"
    by code_simp+
  have s: "fwd_scan (readlines backup_text) [4, 5] = ([5], 6)"
    by code_simp
  from step_block_lines [OF o e]
  have "split_nl (stepBlockText backup_step)
          = [strip (readlines backup_text ! 1), strip (readlines backup_text ! 2),
             strip (readlines backup_text ! 5)]"
   and "fwd_scan (readlines backup_text) (3 # [4, 5]) = fwd_scan (readlines backup_text) [4, 5]"
    using d by simp_all
  then show ?thesis using o f l s by simp
qed

section \<open>Capture windows\<close>

lemma fwd_scan_stops_at_pgm:
  "sorted_wrt (<) js \<Longrightarrow> j \<in> set js \<Longrightarrow> re_match rx_exec_pgm (lines ! j) \<noteq> None \<Longrightarrow>
   snd (fwd_scan lines js) \<le> j"
proof (induction js)
  case Nil
  then show ?case by simp
next
  case (Cons a js)
  show ?case
  proof (cases "re_match rx_exec_pgm (lines ! a) \<noteq> None \<or> strip (lines ! a) = []")
    case True
    then have "snd (fwd_scan lines (a # js)) = a" by auto
    with Cons.prems show ?thesis by auto
  next
    case False
    with Cons.prems have "j \<in> set js" by auto
    with Cons have "snd (fwd_scan lines js) \<le> j" by simp
    with False show ?thesis by (cases "fwd_scan lines js") auto
  qed
qed

lemma captures_emitted: "c \<in> set (captures evs) \<Longrightarrow> \<exists>r. Emit c r \<in> set evs"
  by (auto simp: captures_def split: event.splits)

lemma file_events_capture_step:
  assumes "open_read fs (file_path t) = Inr content"
      and "c \<in> set (captures (file_events fs t))"
  shows "exec_at c < length (readlines content) \<and>
         (\<exists>b. c = capture_step (readlines content) (exec_at c) b)"
proof -
  from captures_emitted [OF assms(2)] obtain r where "Emit c r \<in> set (file_events fs t)" ..
  from scan_lines_emit [OF file_events_emit [OF assms(1) this]]
  obtain i b where i: "i < length (readlines content)"
    and c: "c = capture_step (readlines content) i b"
    by auto
  from capture_step_bounds [OF i, of b] c have "exec_at c = i" by simp
  with i c show ?thesis by auto
qed

text \<open>
  C8. The windows of two steps emitted one after the other can overlap. A step is
  recognised by the pattern of line 175, with or without \<^verbatim>\<open>PGM=\<close>; the forward
  scan of lines 211 to 216 stops only at a blank line or at a line that matches the
  pattern of line 211, which asks for \<^verbatim>\<open>PGM=\<close>. In the file below the line
  \<^verbatim>\<open>//S2 EXEC &UTILNAME\<close> is a step and is no boundary: it lies inside the block of
  S1, and line 4 (\<^verbatim>\<open>//SYSUT1 DD DUMMY\<close>) is captured by S1 and by S2.
\<close>

theorem capture_windows_overlap:
  "re_match rx_exec ''//S2 EXEC &UTILNAME\<newline>'' \<noteq> None \<and>
   re_match rx_exec_pgm ''//S2 EXEC &UTILNAME\<newline>'' = None \<and>
   captures (file_events fs_jobs (job ''/jcl/COPY.jcl''))
     = [\<lparr>exec_at = 1, comments_at = [], block_at = [2, 3, 4], step_end = 5\<rparr>,
        \<lparr>exec_at = 3, comments_at = [], block_at = [4], step_end = 5\<rparr>] \<and>
   map stepBlockText (emitted (file_events fs_jobs (job ''/jcl/COPY.jcl'')))
     = [''//S1 EXEC PGM=IDCAMS\<newline>//SYSPRINT DD SYSOUT=*\<newline>//S2 EXEC &UTILNAME\<newline>//SYSUT1 DD DUMMY'',
        ''//S2 EXEC &UTILNAME\<newline>//SYSUT1 DD DUMMY'']"
  by code_simp

text \<open>What \<open>last_step_end\<close> does give: the backward scan of the later step stops at the
  end boundary that the earlier step recorded, so that no line is a comment line of one
  step and also a comment line, the EXEC line or a block line of the other.\<close>

lemma comment_windows_disjoint:
  assumes "Suc k < length (captures (file_events fs t))"
  shows "(\<forall>j \<in> set (comments_at (captures (file_events fs t) ! Suc k)).
            step_end (captures (file_events fs t) ! k) \<le> j \<and>
            j < exec_at (captures (file_events fs t) ! Suc k)) \<and>
         set (comments_at (captures (file_events fs t) ! Suc k)) \<inter>
           (set (comments_at (captures (file_events fs t) ! k)) \<union>
            {exec_at (captures (file_events fs t) ! k)} \<union>
            set (block_at (captures (file_events fs t) ! k))) = {} \<and>
         set (comments_at (captures (file_events fs t) ! k)) \<inter>
           (set (comments_at (captures (file_events fs t) ! Suc k)) \<union>
            {exec_at (captures (file_events fs t) ! Suc k)} \<union>
            set (block_at (captures (file_events fs t) ! Suc k))) = {}"
proof -
  let ?a = "captures (file_events fs t) ! k" and ?b = "captures (file_events fs t) ! Suc k"
  from chained_adjacent [OF file_events_chained assms]
  have 1: "\<forall>j \<in> set (comments_at ?b). step_end ?a \<le> j \<and> j < exec_at ?b"
   and 2: "\<forall>j \<in> set (comments_at ?a). j < exec_at ?a"
   and 3: "\<forall>j \<in> set (block_at ?a). exec_at ?a < j \<and> j < step_end ?a"
   and 4: "\<forall>j \<in> set (block_at ?b). exec_at ?b < j"
   and 5: "exec_at ?a < step_end ?a" and 6: "exec_at ?a < exec_at ?b"
    by blast+
  have "set (comments_at ?b) \<inter> (set (comments_at ?a) \<union> {exec_at ?a} \<union> set (block_at ?a)) = {}"
    using 1 2 3 5 by fastforce
  moreover have "set (comments_at ?a) \<inter> (set (comments_at ?b) \<union> {exec_at ?b} \<union> set (block_at ?b)) = {}"
    using 1 2 4 5 6 by fastforce
  ultimately show ?thesis using 1 by blast
qed

text \<open>And where the EXEC line of the later step has the form \<^verbatim>\<open>EXEC PGM=\<close>, the
  forward scan of the earlier step stops at it or before it: the two blocks, EXEC lines
  included, share no line.\<close>

lemma block_windows_disjoint:
  assumes o: "open_read fs (file_path t) = Inr content"
      and k: "Suc k < length (captures (file_events fs t))"
      and p: "re_match rx_exec_pgm
                (readlines content ! exec_at (captures (file_events fs t) ! Suc k)) \<noteq> None"
  shows "step_end (captures (file_events fs t) ! k)
           \<le> exec_at (captures (file_events fs t) ! Suc k) \<and>
         (insert (exec_at (captures (file_events fs t) ! k))
            (set (block_at (captures (file_events fs t) ! k)))) \<inter>
         (insert (exec_at (captures (file_events fs t) ! Suc k))
            (set (block_at (captures (file_events fs t) ! Suc k)))) = {}"
proof -
  let ?lines = "readlines content"
  let ?a = "captures (file_events fs t) ! k" and ?b = "captures (file_events fs t) ! Suc k"
  have ain: "?a \<in> set (captures (file_events fs t))" and bin: "?b \<in> set (captures (file_events fs t))"
    using k by simp_all
  from file_events_capture_step [OF o ain] obtain ba where
    a: "?a = capture_step ?lines (exec_at ?a) ba" by blast
  from file_events_capture_step [OF o bin] have bl: "exec_at ?b < length ?lines" by blast
  from chained_adjacent [OF file_events_chained k]
  have 3: "\<forall>j \<in> set (block_at ?a). exec_at ?a < j \<and> j < step_end ?a"
   and 4: "\<forall>j \<in> set (block_at ?b). exec_at ?b < j"
   and 6: "exec_at ?a < exec_at ?b"
    by blast+
  have "exec_at ?b \<in> set [Suc (exec_at ?a) ..< length ?lines]"
    using 6 bl by simp
  then have "snd (fwd_scan ?lines [Suc (exec_at ?a) ..< length ?lines]) \<le> exec_at ?b"
    using fwd_scan_stops_at_pgm [of "[Suc (exec_at ?a) ..< length ?lines]" "exec_at ?b" ?lines] p
    by simp
  moreover have "step_end ?a = snd (fwd_scan ?lines [Suc (exec_at ?a) ..< length ?lines])"
    by (subst a) (simp add: capture_step_def split: prod.splits)
  ultimately have e: "step_end ?a \<le> exec_at ?b" by simp
  with 3 4 6 show ?thesis by fastforce
qed

section \<open>An exception while a file is processed\<close>

lemma fold_apply_event_log: "log (fold apply_event evs sh) = log sh @ logged evs"
proof (induction evs arbitrary: sh)
  case Nil
  then show ?case by (simp add: logged_def)
next
  case (Cons ev evs)
  then show ?case by (cases ev) (simp_all add: logged_def)
qed

lemma worker_log:
  "log (extract_steps_from_file fs queue sh)
     = log sh @ concat (map (\<lambda>t. logged (file_events fs t)) queue)"
  by (induction queue arbitrary: sh) (simp_all add: fold_apply_event_log)

text \<open>Once the file has been read, the scan raises only where the resolver raises: the
  control card reader catches its own exceptions, and nothing else in the loop fails.\<close>

lemma extract_control_card_returns: "\<exists>r. extract_control_card fs cntllib member = Inr r"
  by (simp add: extract_control_card_def split: sum.splits)

lemma find_sysin_returns: "\<exists>r. find_sysin fs cntllib block = Inr r"
proof (induction block)
  case Nil
  then show ?case by simp
next
  case (Cons l block)
  obtain r where "extract_control_card fs cntllib
      (group l (the (re_search rx_dsn_member l)) 1) = Inr r"
    using extract_control_card_returns by blast
  with Cons show ?case by (auto split: option.splits prod.splits)
qed

lemma emit_step_returns: "snd (emit_step fs t lines i lse sn pn) \<noteq> Inl e"
proof -
  obtain r where "find_sysin fs (cntllib_path t)
      (strip (lines ! i) # map (\<lambda>j. strip (lines ! j)) (block_at (capture_step lines i lse))) = Inr r"
    using find_sysin_returns by blast
  then show ?thesis by (simp add: emit_step_def Let_def split: prod.splits)
qed

lemma scan_line_raises:
  assumes "snd (scan_line fs t lines i lse) = Inl e"
  shows "\<exists>m. re_match rx_exec (lines ! i) = Some m \<and>
           startswith ''&'' (upper (group (lines ! i) m 2)) \<and>
           resolve_symbolic_parameter fs (drop 1 (upper (group (lines ! i) m 2))) lines
             (proc_libraries t) (cntllib_path t) = Inl e"
  using assms emit_step_returns [of fs t lines i lse]
  by (auto simp: scan_line_def Let_def resolve_program_def
           split: if_splits option.splits sum.splits)

lemma scan_lines_raises:
  "scan_lines fs t lines js lse = (evs, Some e) \<Longrightarrow>
   \<exists>i \<in> set js. \<exists>m. re_match rx_exec (lines ! i) = Some m \<and>
      startswith ''&'' (upper (group (lines ! i) m 2)) \<and>
      resolve_symbolic_parameter fs (drop 1 (upper (group (lines ! i) m 2))) lines
        (proc_libraries t) (cntllib_path t) = Inl e"
proof (induction js arbitrary: lse evs)
  case Nil
  then show ?case by simp
next
  case (Cons i js)
  obtain ev res where sl: "scan_line fs t lines i lse = (ev, res)"
    by (cases "scan_line fs t lines i lse")
  show ?case
  proof (cases res)
    case (Inl x)
    with Cons.prems sl have "snd (scan_line fs t lines i lse) = Inl e" by simp
    from scan_line_raises [OF this] show ?thesis by auto
  next
    case (Inr n)
    obtain evs' r' where rest: "scan_lines fs t lines js n = (evs', r')"
      by (cases "scan_lines fs t lines js n")
    with Cons.prems sl Inr have "scan_lines fs t lines js n = (evs', Some e)" by simp
    from Cons.IH [OF this] show ?thesis by auto
  qed
qed

text \<open>
  C4. The records of a file are appended one by one while the file is scanned. In the
  file below the first step is appended; then the resolver raises on \<^verbatim>\<open>&UTIL\<close>,
  because the PROC file named by an EXEC line cannot be read and that read has no
  handler (the defect of C3). The handler of line 247 logs the error, and the record of
  the first step stays in the shared collection.
\<close>

theorem partial_records_after_raise:
  "file_events fs_jobs (job ''/jcl/BROKEN.jcl'')
     = [Emit \<lparr>exec_at = 0, comments_at = [], block_at = [1], step_end = 2\<rparr> broken_step,
        Log ''Error reading /jcl/BROKEN.jcl: Permission denied''] \<and>
   extract_steps_from_file fs_jobs [job ''/jcl/BROKEN.jcl''] \<lparr>extracted_data = [], log = []\<rparr>
     = \<lparr>extracted_data = [broken_step],
        log = [''Error reading /jcl/BROKEN.jcl: Permission denied'']\<rparr>"
  by code_simp

text \<open>The loop of the worker itself goes on after the exception: every task of the queue
  contributes its own records and log lines, whatever happened to the others, and a file
  that cannot be opened contributes no record.\<close>

lemma worker_loop_contributions:
  "extracted_data (extract_steps_from_file fs queue sh)
     = extracted_data sh @ concat (map (\<lambda>t. emitted (file_events fs t)) queue) \<and>
   log (extract_steps_from_file fs queue sh)
     = log sh @ concat (map (\<lambda>t. logged (file_events fs t)) queue) \<and>
   (\<forall>t e. open_read fs (file_path t) = Inl e \<longrightarrow>
      file_events fs t = [Log (''Error reading '' @ file_path t @ '': '' @ exn_str e)]) \<and>
   (\<forall>t content evs e. open_read fs (file_path t) = Inr content \<longrightarrow>
      scan_lines fs t (readlines content) [0 ..< length (readlines content)] 0 = (evs, Some e) \<longrightarrow>
      file_events fs t = evs @ [Log (''Error reading '' @ file_path t @ '': '' @ exn_str e)])"
proof (intro conjI allI impI)
  show "extracted_data (extract_steps_from_file fs queue sh)
     = extracted_data sh @ concat (map (\<lambda>t. emitted (file_events fs t)) queue)"
    by (rule worker_extracted)
  show "log (extract_steps_from_file fs queue sh)
     = log sh @ concat (map (\<lambda>t. logged (file_events fs t)) queue)"
    by (rule worker_log)
next
  fix t :: task and e assume "open_read fs (file_path t) = Inl e"
  then show "file_events fs t = [Log (''Error reading '' @ file_path t @ '': '' @ exn_str e)]"
    by (simp add: file_events_def)
next
  fix t :: task and content evs e
  assume o: "open_read fs (file_path t) = Inr content"
     and s: "scan_lines fs t (readlines content) [0 ..< length (readlines content)] 0 = (evs, Some e)"
  from s have "readlines content \<noteq> []" by auto
  with o s show "file_events fs t = evs @ [Log (''Error reading '' @ file_path t @ '': '' @ exn_str e)]"
    by (simp add: file_events_def)
qed

section \<open>The pool of workers\<close>

lemma sum_list_update:
  fixes f :: "'a \<Rightarrow> 'b::cancel_comm_monoid_add"
  shows "k < length xs \<Longrightarrow>
    sum_list (map f (xs[k := y])) + f (xs ! k) = sum_list (map f xs) + f y"
proof (induction xs arbitrary: k)
  case Nil
  then show ?case by simp
next
  case (Cons x xs)
  then show ?case by (cases k) (simp_all add: ac_simps)
qed







lemma step_workers: "step fs s s' \<Longrightarrow> length (workers s') = length (workers s)"
  by (induction rule: step.induct) simp_all


lemma step_work_left: "step fs s s' \<Longrightarrow> work_left fs s' < work_left fs s"
proof (induction rule: step.induct)
  case (queue_empty k s)
  from sum_list_update [OF queue_empty(1), of weight Finished] queue_empty(2)
  show ?case by (simp add: work_left_def weight_def)
next
  case (queue_nonempty k s)
  from sum_list_update [OF queue_nonempty(1), of weight Getting] queue_nonempty(2)
  show ?case by (simp add: work_left_def weight_def)
next
  case (get_task k s t q)
  from sum_list_update [OF get_task(1), of weight "Working (file_events fs t)"] get_task(2,3)
  show ?case by (simp add: work_left_def weight_def)
next
  case (do_event k s ev evs)
  from sum_list_update [OF do_event(1), of weight "Working evs"] do_event(2)
  show ?case by (simp add: work_left_def weight_def)
next
  case (task_done k s)
  from sum_list_update [OF task_done(1), of weight Checking] task_done(2)
  show ?case by (simp add: work_left_def weight_def)
qed

lemma not_halted_step:
  assumes "\<not> halted s"
  shows "\<exists>s'. step fs s s'"
proof -
  from assms obtain k where k: "k < length (workers s)"
    and r: "\<not> cannot_move (file_queue s) (workers s ! k)"
    by (auto simp: halted_def list_all_length)
  show ?thesis
  proof (cases "workers s ! k")
    case Checking
    then show ?thesis
      using k step.queue_empty [of k s fs] step.queue_nonempty [of k s fs] by blast
  next
    case Getting
    with r obtain t q where "file_queue s = t # q"
      by (cases "file_queue s") (auto simp: cannot_move_def)
    with Getting k show ?thesis using step.get_task by blast
  next
    case (Working evs)
    then show ?thesis
      using k step.do_event [of k s _ _ fs] step.task_done [of k s fs] by (cases evs) blast+
  next
    case Finished
    with r show ?thesis by (simp add: cannot_move_def)
  qed
qed


lemma reaches_halted: "\<exists>s'. (step fs)\<^sup>*\<^sup>* s s' \<and> halted s'"
proof (induction "work_left fs s" arbitrary: s rule: less_induct)
  case less
  show ?case
  proof (cases "halted s")
    case True
    then show ?thesis by blast
  next
    case False
    then obtain s1 where s1: "step fs s s1" using not_halted_step by blast
    from less [OF step_work_left [OF s1]] obtain s' where
      "(step fs)\<^sup>*\<^sup>* s1 s'" "halted s'" by blast
    with s1 show ?thesis by (meson converse_rtranclp_into_rtranclp)
  qed
qed








lemma work_through:
  "k < length ws \<Longrightarrow> ws ! k = Working evs \<Longrightarrow>
   (step fs)\<^sup>*\<^sup>* \<lparr>file_queue = q, results = sh, workers = ws\<rparr>
     \<lparr>file_queue = q, results = fold apply_event evs sh, workers = ws[k := Checking]\<rparr>"
proof (induction evs arbitrary: sh ws)
  case Nil
  from step.task_done [of k "\<lparr>file_queue = q, results = sh, workers = ws\<rparr>" fs] Nil
  show ?case by auto
next
  case (Cons ev evs)
  from step.do_event [of k "\<lparr>file_queue = q, results = sh, workers = ws\<rparr>" ev evs fs] Cons.prems
  have "step fs \<lparr>file_queue = q, results = sh, workers = ws\<rparr>
          \<lparr>file_queue = q, results = apply_event ev sh, workers = ws[k := Working evs]\<rparr>"
    by simp
  moreover from Cons.IH [of "ws[k := Working evs]" "apply_event ev sh"] Cons.prems
  have "(step fs)\<^sup>*\<^sup>* \<lparr>file_queue = q, results = apply_event ev sh, workers = ws[k := Working evs]\<rparr>
          \<lparr>file_queue = q, results = fold apply_event evs (apply_event ev sh),
            workers = ws[k := Checking]\<rparr>"
    by simp
  ultimately show ?case by (simp add: converse_rtranclp_into_rtranclp)
qed

text \<open>
  Two workers and two queued files. The second worker finds the queue not empty while the
  first is busy with the first file; the first worker then takes the second file as well,
  and the second worker waits in \<^verbatim>\<open>file_queue.get()\<close> on a queue that stays empty.
\<close>

lemma worker_left_waiting:
  "\<exists>s. (step fs)\<^sup>*\<^sup>* (start_pool [a, b] 2) s \<and> halted s \<and>
        workers s = [Finished, Getting] \<and>
        extracted_data (results s) = emitted (file_events fs a) @ emitted (file_events fs b)"
proof -
  let ?e = "\<lparr>extracted_data = [], log = []\<rparr>"
  let ?ra = "fold apply_event (file_events fs a) ?e"
  let ?rb = "fold apply_event (file_events fs b) ?ra"
  let ?s0 = "\<lparr>file_queue = [a, b], results = ?e, workers = [Checking, Checking]\<rparr>"
  let ?s1 = "\<lparr>file_queue = [a, b], results = ?e, workers = [Getting, Checking]\<rparr>"
  let ?s2 = "\<lparr>file_queue = [b], results = ?e, workers = [Working (file_events fs a), Checking]\<rparr>"
  let ?s3 = "\<lparr>file_queue = [b], results = ?e, workers = [Working (file_events fs a), Getting]\<rparr>"
  let ?s4 = "\<lparr>file_queue = [b], results = ?ra, workers = [Checking, Getting]\<rparr>"
  let ?s5 = "\<lparr>file_queue = [b], results = ?ra, workers = [Getting, Getting]\<rparr>"
  let ?s6 = "\<lparr>file_queue = [], results = ?ra, workers = [Working (file_events fs b), Getting]\<rparr>"
  let ?s7 = "\<lparr>file_queue = [], results = ?rb, workers = [Checking, Getting]\<rparr>"
  let ?s8 = "\<lparr>file_queue = [], results = ?rb, workers = [Finished, Getting]\<rparr>"
  have 0: "start_pool [a, b] 2 = ?s0"
    by (simp add: start_pool_def numeral_2_eq_2)
  have 1: "step fs ?s0 ?s1" using step.queue_nonempty [of 0 ?s0 fs] by simp
  have 2: "step fs ?s1 ?s2" using step.get_task [of 0 ?s1 a "[b]" fs] by simp
  have 3: "step fs ?s2 ?s3" using step.queue_nonempty [of 1 ?s2 fs] by simp
  have 4: "(step fs)\<^sup>*\<^sup>* ?s3 ?s4"
    using work_through [of 0 "[Working (file_events fs a), Getting]" "file_events fs a" fs "[b]" ?e]
    by simp
  have 5: "step fs ?s4 ?s5" using step.queue_nonempty [of 0 ?s4 fs] by simp
  have 6: "step fs ?s5 ?s6" using step.get_task [of 0 ?s5 b "[]" fs] by simp
  have 7: "(step fs)\<^sup>*\<^sup>* ?s6 ?s7"
    using work_through [of 0 "[Working (file_events fs b), Getting]" "file_events fs b" fs "[]" ?ra]
    by simp
  have 8: "step fs ?s7 ?s8" using step.queue_empty [of 0 ?s7 fs] by simp
  have "(step fs)\<^sup>*\<^sup>* ?s0 ?s3" using 1 2 3 by (meson r_into_rtranclp rtranclp_trans)
  then have "(step fs)\<^sup>*\<^sup>* ?s0 ?s6" using 4 5 6 by (meson r_into_rtranclp rtranclp_trans)
  then have "(step fs)\<^sup>*\<^sup>* ?s0 ?s8" using 7 8 by (meson r_into_rtranclp rtranclp_trans)
  moreover have "halted ?s8" by (simp add: halted_def cannot_move_def)
  moreover have "extracted_data ?rb = emitted (file_events fs a) @ emitted (file_events fs b)"
    by (simp add: fold_apply_event)
  ultimately show ?thesis unfolding 0 by (intro exI [of _ ?s8]) simp
qed






text \<open>One worker alone never waits on the empty queue: it is the only one that takes
  tasks, so the queue is as it found it when it calls \<^verbatim>\<open>get()\<close>.\<close>

lemma single_worker_step:
  "step fs s s' \<Longrightarrow> length (workers s) = 1 \<Longrightarrow>
   (workers s = [Getting] \<longrightarrow> file_queue s \<noteq> []) \<Longrightarrow>
   (workers s' = [Getting] \<longrightarrow> file_queue s' \<noteq> [])"
proof (induction rule: step.induct)
  case (queue_empty k s)
  then show ?case by (cases "workers s") auto
next
  case (queue_nonempty k s)
  then show ?case by simp
next
  case (get_task k s t q)
  then show ?case by (cases "workers s") auto
next
  case (do_event k s ev evs)
  then show ?case by (cases "workers s") auto
next
  case (task_done k s)
  then show ?case by (cases "workers s") auto
qed

lemma single_worker_completes:
  assumes "(step fs)\<^sup>*\<^sup>* (start_pool q 1) s" and "halted s"
  shows "completed s"
proof -
  from assms(1) have "length (workers s) = 1 \<and> (workers s = [Getting] \<longrightarrow> file_queue s \<noteq> [])"
  proof (induction rule: rtranclp_induct)
    case base
    then show ?case by (simp add: start_pool_def)
  next
    case (step y z)
    then show ?case using single_worker_step [of fs y z] step_workers [of fs y z] by simp
  qed
  then obtain w where w: "workers s = [w]" "w = Getting \<longrightarrow> file_queue s \<noteq> []"
    by (cases "workers s") auto
  with assms(2) show ?thesis
    by (cases w) (auto simp: halted_def completed_def cannot_move_def)
qed




end
